theory Spec2Isabelle
  imports Complex_Main
begin
section \<open>Course Compass: the chunker and the hybrid retriever\<close>

text \<open>
  The development embeds two modules of the backend:
  \<^item> \<open>indexer.py\<close>: \<open>chunk_text\<close>, with its boundary detection and the nested point query
    \<open>is_in_protected_region\<close>;
  \<^item> \<open>retriever.py\<close>: \<open>bm25_search\<close>, \<open>hybrid_search\<close> (with the nested
    \<open>_normalize_scores\<close>) and \<open>retrieve\<close>.

  Conventions. A text is a \<open>string\<close>; one \<open>char\<close> stands for one Python code point below
  256, so \<open>length\<close> is Python's \<open>len\<close>. Offsets and sizes are Python ints, hence \<open>int\<close>.
  Scores are Python floats; they are modelled as exact \<open>real\<close> numbers, so rounding is not
  part of the model. The external services (the regular expression engine on the three
  fixed patterns, ChromaDB, BM25Okapi, numpy) are either modelled on exactly what the code
  asks of them or taken as parameters.
\<close>

subsection \<open>Python primitives used by both modules\<close>

text \<open>\<open>str.isspace\<close> on the code points below 256.\<close>

definition is_space :: "char \<Rightarrow> bool" where
  "is_space c = (c \<in> set [CHR 0x09, CHR 0x0A, CHR 0x0B, CHR 0x0C, CHR 0x0D,
                           CHR 0x1C, CHR 0x1D, CHR 0x1E, CHR 0x1F, CHR 0x20,
                           CHR 0x85, CHR 0xA0])"

text \<open>\<open>str.strip()\<close>: whitespace removed at both ends.\<close>

definition strip :: "string \<Rightarrow> string" where
  "strip s = rev (dropWhile is_space (rev (dropWhile is_space s)))"

text \<open>
  A slice \<open>xs[a:b]\<close>: a negative bound counts from the end, and both bounds are
  clipped to \<open>0 .. len(xs)\<close>.
\<close>

definition slice_bound :: "int \<Rightarrow> int \<Rightarrow> int" where
  "slice_bound n i =
     (let j = (if i < 0 then i + n else i)
      in if j < 0 then 0 else if n < j then n else j)"

definition py_slice :: "'a list \<Rightarrow> int \<Rightarrow> int \<Rightarrow> 'a list" where
  "py_slice xs a b =
     (let n = int (length xs); lo = slice_bound n a; hi = slice_bound n b
      in take (nat (hi - lo)) (drop (nat lo) xs))"

text \<open>\<open>s.startswith(p)\<close> and \<open>sub in s\<close>.\<close>

fun startswith :: "string \<Rightarrow> string \<Rightarrow> bool" where
  "startswith s [] = True"
| "startswith [] (p # ps) = False"
| "startswith (c # cs) (p # ps) = (c = p \<and> startswith cs ps)"

fun str_contains :: "string \<Rightarrow> string \<Rightarrow> bool" where
  "str_contains sub [] = (sub = [])"
| "str_contains sub (c # cs) = (startswith (c # cs) sub \<or> str_contains sub cs)"

subsection \<open>Boundary detection (\<open>indexer.py\<close>, lines 30 to 78)\<close>

text \<open>
  The three patterns, each as a matcher that, given the rest of the text from a position,
  returns the length of the match starting there:
  \<^verbatim>\<open>\[TABLE \d+\]\<close>, \<^verbatim>\<open>\[END TABLE\]\<close> and \<^verbatim>\<open>\[SLIDE \d+[^\]]*\]\<close>.
  The greedy \<^verbatim>\<open>\d+\<close> takes every digit; giving digits back never helps, since the next
  character would be a digit and not the closing bracket. Likewise \<^verbatim>\<open>[^\]]*\<close> runs up to
  the first closing bracket.
\<close>

definition is_digit :: "char \<Rightarrow> bool" where
  "is_digit c = (c \<in> set ''0123456789'')"

fun strip_lit :: "string \<Rightarrow> string \<Rightarrow> string option" where
  "strip_lit [] s = Some s"
| "strip_lit (p # ps) [] = None"
| "strip_lit (p # ps) (c # cs) = (if p = c then strip_lit ps cs else None)"

definition match_table :: "string \<Rightarrow> nat option" where
  "match_table s =
     (case strip_lit ''[TABLE '' s of
        None \<Rightarrow> None
      | Some r \<Rightarrow>
          (let ds = takeWhile is_digit r in
           if ds = [] then None
           else (case dropWhile is_digit r of
                   [] \<Rightarrow> None
                 | c # _ \<Rightarrow> if c = CHR '']'' then Some (7 + length ds + 1) else None)))"

definition match_end_table :: "string \<Rightarrow> nat option" where
  "match_end_table s =
     (case strip_lit ''[END TABLE]'' s of None \<Rightarrow> None | Some _ \<Rightarrow> Some 11)"

definition match_slide :: "string \<Rightarrow> nat option" where
  "match_slide s =
     (case strip_lit ''[SLIDE '' s of
        None \<Rightarrow> None
      | Some r \<Rightarrow>
          (if takeWhile is_digit r = [] then None
           else (let body = takeWhile (\<lambda>c. c \<noteq> CHR '']'') r in
                 case dropWhile (\<lambda>c. c \<noteq> CHR '']'') r of
                   [] \<Rightarrow> None
                 | _ # _ \<Rightarrow> Some (7 + length body + 1))))"

text \<open>
  \<open>re.finditer\<close>: the matches from left to right, none overlapping another. The scan
  keeps the current offset and the number of characters still covered by the last match.
  The result lists \<open>(m.start(), m.end())\<close>.
\<close>

fun scan :: "(string \<Rightarrow> nat option) \<Rightarrow> int \<Rightarrow> nat \<Rightarrow> string \<Rightarrow> (int \<times> int) list" where
  "scan m pos skip [] = []"
| "scan m pos skip (c # cs) =
     (if 0 < skip then scan m (pos + 1) (skip - 1) cs
      else (case m (c # cs) of
              None \<Rightarrow> scan m (pos + 1) 0 cs
            | Some n \<Rightarrow> (pos, pos + int n) # scan m (pos + 1) (n - 1) cs))"

definition finditer :: "(string \<Rightarrow> nat option) \<Rightarrow> string \<Rightarrow> (int \<times> int) list" where
  "finditer m text = scan m 0 0 text"

text \<open>
  The table ranges (lines 41 to 46): for each opening marker, the inner loop takes the
  first closing marker that starts after it and breaks.
\<close>

fun first_end_after :: "int \<Rightarrow> (int \<times> int) list \<Rightarrow> (int \<times> int) list" where
  "first_end_after start_pos [] = []"
| "first_end_after start_pos ((end_pos, end_end) # table_ends) =
     (if start_pos < end_pos then [(start_pos, end_end)]
      else first_end_after start_pos table_ends)"

fun pair_tables :: "(int \<times> int) list \<Rightarrow> (int \<times> int) list \<Rightarrow> (int \<times> int) list" where
  "pair_tables [] table_ends = []"
| "pair_tables ((start_pos, start_end) # table_starts) table_ends =
     first_end_after start_pos table_ends @ pair_tables table_starts table_ends"

definition table_ranges :: "string \<Rightarrow> (int \<times> int) list" where
  "table_ranges text =
     pair_tables (finditer match_table text) (finditer match_end_table text)"

text \<open>
  The slide ranges (lines 53 to 61): slide \<open>i\<close> runs to the start of slide \<open>i + 1\<close>, the
  last one to the end of the text.
\<close>

definition slide_range_at :: "(int \<times> int) list \<Rightarrow> int \<Rightarrow> nat \<Rightarrow> int \<times> int" where
  "slide_range_at slide_matches text_len i =
     (fst (slide_matches ! i),
      if i + 1 < length slide_matches then fst (slide_matches ! (i + 1)) else text_len)"

definition slide_ranges :: "string \<Rightarrow> (int \<times> int) list" where
  "slide_ranges text =
     (let slide_matches = finditer match_slide text
      in map (slide_range_at slide_matches (int (length text))) [0..<length slide_matches])"

text \<open>The point query (lines 63 to 78): tables first, then slides.\<close>

datatype region_type = Table | Slide

fun region_end_at :: "(int \<times> int) list \<Rightarrow> int \<Rightarrow> int option" where
  "region_end_at [] pos = None"
| "region_end_at ((start, end) # ranges) pos =
     (if start \<le> pos \<and> pos < end then Some end else region_end_at ranges pos)"

definition is_in_protected_region ::
  "(int \<times> int) list \<Rightarrow> (int \<times> int) list \<Rightarrow> int \<Rightarrow> bool \<times> region_type option \<times> int" where
  "is_in_protected_region tables slides pos =
     (case region_end_at tables pos of
        Some end \<Rightarrow> (True, Some Table, end)
      | None \<Rightarrow>
          (case region_end_at slides pos of
             Some end \<Rightarrow> (True, Some Slide, end)
           | None \<Rightarrow> (False, None, pos)))"

subsection \<open>The chunking loop (\<open>indexer.py\<close>, lines 80 to 118)\<close>

type_synonym chunk = "string \<times> int \<times> int"

text \<open>\<open>if chunk.strip(): chunks.append((chunk, start, end))\<close>.\<close>

definition append_chunk :: "string \<Rightarrow> int \<Rightarrow> int \<Rightarrow> chunk list \<Rightarrow> chunk list" where
  "append_chunk text start end chunks =
     (let chunk = py_slice text start end
      in if strip chunk \<noteq> [] then chunks @ [(chunk, start, end)] else chunks)"

text \<open>The end of an ordinary chunk (lines 96 to 104).\<close>

definition normal_end ::
  "string \<Rightarrow> (int \<times> int) list \<Rightarrow> (int \<times> int) list \<Rightarrow> int \<Rightarrow> int \<Rightarrow> int" where
  "normal_end text tables slides chunk_size start =
     (let end = start + chunk_size in
      if end < int (length text) then
        (case is_in_protected_region tables slides end of
           (is_protected_at_end, _, region_end_at_end) \<Rightarrow>
             if is_protected_at_end then min region_end_at_end (start + chunk_size * 2)
             else end)
      else end)"

text \<open>
  The \<open>while\<close> loop. It need not terminate (with \<open>overlap \<ge> chunk_size\<close> the cursor
  of an ordinary step does not advance), so the loop is a partial function and \<open>None\<close>
  stands for a run that never returns.
\<close>

partial_function (option) chunk_loop ::
  "string \<Rightarrow> (int \<times> int) list \<Rightarrow> (int \<times> int) list \<Rightarrow> int \<Rightarrow> int \<Rightarrow> int \<Rightarrow> chunk list
     \<Rightarrow> chunk list option" where
  "chunk_loop text tables slides chunk_size overlap start chunks =
     (if start < int (length text) then
        (if fst (is_in_protected_region tables slides start) then
           chunk_loop text tables slides chunk_size overlap
             (snd (snd (is_in_protected_region tables slides start)))
             (append_chunk text start
                (snd (snd (is_in_protected_region tables slides start))) chunks)
         else if int (length text) \<le> start + (chunk_size - overlap) then
           Some (append_chunk text start
                   (normal_end text tables slides chunk_size start) chunks)
         else
           chunk_loop text tables slides chunk_size overlap (start + (chunk_size - overlap))
             (append_chunk text start
                (normal_end text tables slides chunk_size start) chunks))
      else Some chunks)"

declare chunk_loop.simps [code]

definition CHUNK_SIZE :: int where "CHUNK_SIZE = 1200"
definition CHUNK_OVERLAP :: int where "CHUNK_OVERLAP = 200"

definition chunk_text :: "string \<Rightarrow> int option \<Rightarrow> int option \<Rightarrow> chunk list option" where
  "chunk_text text chunk_size overlap =
     chunk_loop text (table_ranges text) (slide_ranges text)
       (case chunk_size of None \<Rightarrow> CHUNK_SIZE | Some n \<Rightarrow> n)
       (case overlap of None \<Rightarrow> CHUNK_OVERLAP | Some n \<Rightarrow> n)
       0 []"

subsection \<open>The retriever (\<open>retriever.py\<close>): results and Python primitives\<close>

text \<open>
  A search result is a Python dict with the keys \<open>text\<close>, \<open>metadata\<close>, \<open>score\<close> and
  \<open>type\<close>. \<open>hybrid_search\<close> adds the key \<open>normalized_score\<close> to every result (lines 148
  to 152) and the key \<open>hybrid_score\<close> to every entry of \<open>merged\<close> (lines 183 and 194,
  \<^verbatim>\<open>{**result, 'hybrid_score': ...}\<close>). The three stages are three record types, each
  extending the one before; since both keys are always set before they are read, the
  defaults of \<^verbatim>\<open>result.get('normalized_score', 0.0)\<close> are never taken.
\<close>

datatype result_type = Vector | BM25

record 'm result =
  rtext :: string
  metadata :: 'm
  score :: real
  rtype :: result_type

record 'm scored = "'m result" +
  normalized_score :: real

record 'm fused = "'m scored" +
  hybrid_score :: real

datatype py_error = ZeroDivisionError

text \<open>Float division raises on a zero divisor.\<close>

definition py_truediv :: "real \<Rightarrow> real \<Rightarrow> py_error + real" where
  "py_truediv a b = (if b = 0 then Inl ZeroDivisionError else Inr (a / b))"

text \<open>\<open>d.get(k, default)\<close> on a dict kept as an association list.\<close>

definition dict_get :: "('k \<times> 'v) list \<Rightarrow> 'k \<Rightarrow> 'v \<Rightarrow> 'v" where
  "dict_get d k dflt = (case map_of d k of None \<Rightarrow> dflt | Some v \<Rightarrow> v)"

text \<open>\<open>str.lower()\<close> on the code points below 256.\<close>

definition lower_char :: "char \<Rightarrow> char" where
  "lower_char c =
     (let n = (of_char c :: nat)
      in if (65 \<le> n \<and> n \<le> 90) \<or> (192 \<le> n \<and> n \<le> 222 \<and> n \<noteq> 215)
         then char_of (n + 32) else c)"

definition lower :: "string \<Rightarrow> string" where
  "lower s = map lower_char s"

text \<open>\<open>str.split()\<close>: the maximal runs of non-whitespace characters.\<close>

fun split_ws :: "string \<Rightarrow> string \<Rightarrow> string list" where
  "split_ws [] w = (if w = [] then [] else [w])"
| "split_ws (c # cs) w =
     (if is_space c then (if w = [] then split_ws cs [] else w # split_ws cs [])
      else split_ws cs (w @ [c]))"

definition split :: "string \<Rightarrow> string list" where
  "split s = split_ws s []"

definition TOP_K :: int where "TOP_K = 8"

subsection \<open>\<open>bm25_search\<close> (lines 81 to 106)\<close>

text \<open>
  \<open>BM25Okapi.get_scores\<close> and \<open>numpy.argsort\<close> are library code: they are parameters.
  \<open>get_scores\<close> maps the query tokens to one score per document; \<open>argsort\<close> maps the
  scores to the document indices by increasing score.
\<close>

definition bm25_search ::
  "(string list \<Rightarrow> real list) \<Rightarrow> (real list \<Rightarrow> nat list) \<Rightarrow> string list \<Rightarrow> 'm list
     \<Rightarrow> string \<Rightarrow> int option \<Rightarrow> 'm result list" where
  "bm25_search get_scores argsort documents metadatas query top_k =
     (let k = (case top_k of None \<Rightarrow> TOP_K | Some n \<Rightarrow> n);
          tokenized_query = split (lower query);
          scores = get_scores tokenized_query;
          top_indices = py_slice (rev (argsort scores)) 0 k
      in map (\<lambda>idx. \<lparr>rtext = documents ! idx, metadata = metadatas ! idx,
                      score = scores ! idx, rtype = BM25\<rparr>)
           (filter (\<lambda>idx. 0 < scores ! idx) top_indices))"

subsection \<open>\<open>_normalize_scores\<close> (lines 121 to 142)\<close>

text \<open>The loop of lines 139 and 140; each division may raise.\<close>

fun normalize_loop ::
  "real \<Rightarrow> real \<Rightarrow> (nat \<times> real) list \<Rightarrow> (nat \<times> real) list \<Rightarrow> py_error + (nat \<times> real) list" where
  "normalize_loop min_score max_score [] normalized = Inr normalized"
| "normalize_loop min_score max_score ((i, s) # rest) normalized =
     (case py_truediv (s - min_score) (max_score - min_score) of
        Inl e \<Rightarrow> Inl e
      | Inr v \<Rightarrow> normalize_loop min_score max_score rest (normalized @ [(i, v)]))"

definition normalize_scores :: "('m, 'z) result_scheme list \<Rightarrow> py_error + (nat \<times> real) list" where
  "normalize_scores results =
     (if results = [] then Inr []
      else
        (let scores = map score results in
         if scores = [] then Inr []
         else
           (let max_score = Max (set scores); min_score = Min (set scores) in
            if max_score = min_score \<or> max_score = 0
            then Inr (map (\<lambda>i. (i, 0.5)) [0..<length results])
            else normalize_loop min_score max_score (enumerate 0 scores) [])))"

text \<open>Lines 148 to 152: \<open>r['normalized_score'] = normalized.get(i, 0.0)\<close>.\<close>

definition set_normalized :: "(nat \<times> real) list \<Rightarrow> 'm result list \<Rightarrow> 'm scored list" where
  "set_normalized normalized results =
     map (\<lambda>(i, r). \<lparr>rtext = rtext r, metadata = metadata r, score = score r, rtype = rtype r,
                    normalized_score = dict_get normalized i 0.0\<rparr>)
       (enumerate 0 results)"

subsection \<open>Keyword boost (lines 154 to 173)\<close>

text \<open>
  The three amounts are parameters of the general definitions, so that the same
  computation can be run with other amounts; the code has 0.15, 0.20 and 0.25.
\<close>

definition is_location_query :: "string \<Rightarrow> bool" where
  "is_location_query query_lower =
     list_ex (startswith query_lower) [''where'', ''which module'', ''find'']"

definition is_materials_query :: "string \<Rightarrow> bool" where
  "is_materials_query query_lower =
     list_ex (\<lambda>keyword. str_contains keyword query_lower)
       [''material'', ''book'', ''textbook'', ''required'', ''course pack'']"

definition has_materials_term :: "string \<Rightarrow> bool" where
  "has_materials_term result_text =
     list_ex (\<lambda>term. str_contains term result_text)
       [''table'', ''material'', ''book'', ''fundamentals'', ''course pack'', ''lab access'']"

definition boost_result_with :: "real \<Rightarrow> 'm scored \<Rightarrow> 'm scored" where
  "boost_result_with amount result =
     (if has_materials_term (lower (rtext result))
      then result\<lparr>normalized_score := min 1.0 (normalized_score result + amount)\<rparr>
      else result)"

definition boost_stage_with ::
  "real \<Rightarrow> real \<Rightarrow> real \<Rightarrow> string \<Rightarrow> 'm scored list \<Rightarrow> 'm scored list
     \<Rightarrow> real \<times> 'm scored list \<times> 'm scored list" where
  "boost_stage_with location_boost materials_boost term_boost query vector_results bm25_results =
     (let query_lower = lower (strip query) in
      if is_location_query query_lower then (location_boost, vector_results, bm25_results)
      else if is_materials_query query_lower then
        (materials_boost, map (boost_result_with term_boost) vector_results,
         map (boost_result_with term_boost) bm25_results)
      else (0.0, vector_results, bm25_results))"

subsection \<open>Merge by text (lines 175 to 198)\<close>

text \<open>
  \<open>merged\<close> is a dict keyed by the text, in insertion order. One iteration of either
  loop, with the weight of the loop:
\<close>

definition merge_add :: "real \<Rightarrow> 'm scored \<Rightarrow> (string \<times> 'm fused) list \<Rightarrow> (string \<times> 'm fused) list" where
  "merge_add weight result merged =
     (let key = rtext result in
      if map_of merged key = None then
        merged @ [(key, \<lparr>rtext = rtext result, metadata = metadata result, score = score result,
                          rtype = rtype result, normalized_score = normalized_score result,
                          hybrid_score = normalized_score result * weight\<rparr>)]
      else
        map (\<lambda>(k, v). if k = key
                        then (k, v\<lparr>hybrid_score := hybrid_score v + normalized_score result * weight\<rparr>)
                        else (k, v)) merged)"

fun merge_loop :: "real \<Rightarrow> 'm scored list \<Rightarrow> (string \<times> 'm fused) list \<Rightarrow> (string \<times> 'm fused) list" where
  "merge_loop weight [] merged = merged"
| "merge_loop weight (result # results) merged =
     merge_loop weight results (merge_add weight result merged)"

definition merge_results :: "'m scored list \<Rightarrow> 'm scored list \<Rightarrow> (string \<times> 'm fused) list" where
  "merge_results vector_results bm25_results =
     merge_loop 0.4 bm25_results (merge_loop 0.6 vector_results [])"

subsection \<open>Boost, clamp, sort and cut (lines 200 to 208)\<close>

definition clamp_boost :: "real \<Rightarrow> (string \<times> 'm fused) list \<Rightarrow> (string \<times> 'm fused) list" where
  "clamp_boost keyword_boost merged =
     map (\<lambda>(key, v). (key, v\<lparr>hybrid_score := max 0.0 (min 1.0 (hybrid_score v + keyword_boost))\<rparr>))
       merged"

text \<open>
  \<open>final_results.sort(key=..., reverse=True)\<close>: a stable sort by decreasing score, that
  is, the stable sort by increasing negated score.
\<close>

definition sort_by_hybrid :: "'m fused list \<Rightarrow> 'm fused list" where
  "sort_by_hybrid final_results = sort_key (\<lambda>x. - hybrid_score x) final_results"

definition fuse_with ::
  "real \<Rightarrow> real \<Rightarrow> real \<Rightarrow> string \<Rightarrow> 'm result list \<Rightarrow> 'm result list \<Rightarrow> int
     \<Rightarrow> py_error + 'm fused list" where
  "fuse_with location_boost materials_boost term_boost query vector_results bm25_results top_k =
     (case normalize_scores vector_results of
        Inl e \<Rightarrow> Inl e
      | Inr v_normalized \<Rightarrow>
          (case normalize_scores bm25_results of
             Inl e \<Rightarrow> Inl e
           | Inr b_normalized \<Rightarrow>
               (case boost_stage_with location_boost materials_boost term_boost query
                       (set_normalized v_normalized vector_results)
                       (set_normalized b_normalized bm25_results) of
                  (keyword_boost, vs, bs) \<Rightarrow>
                    Inr (py_slice
                           (sort_by_hybrid
                              (map snd (clamp_boost keyword_boost (merge_results vs bs))))
                           0 top_k))))"

subsection \<open>\<open>hybrid_search\<close> and \<open>retrieve\<close>\<close>

text \<open>
  \<open>vector_search\<close> (ChromaDB and the embedding model) and the lexical search are
  parameters: functions from the query and the number of candidates to a result list.
\<close>

definition hybrid_search_with ::
  "real \<Rightarrow> real \<Rightarrow> real \<Rightarrow> (string \<Rightarrow> int \<Rightarrow> 'm result list) \<Rightarrow> (string \<Rightarrow> int \<Rightarrow> 'm result list)
     \<Rightarrow> string \<Rightarrow> int option \<Rightarrow> py_error + 'm fused list" where
  "hybrid_search_with location_boost materials_boost term_boost vector_search lexical_search
       query top_k =
     (let k = (case top_k of None \<Rightarrow> TOP_K | Some n \<Rightarrow> n);
          vector_results = vector_search query (k * 2);
          bm25_results = lexical_search query (k * 2)
      in fuse_with location_boost materials_boost term_boost query vector_results bm25_results k)"

definition hybrid_search ::
  "(string \<Rightarrow> int \<Rightarrow> 'm result list) \<Rightarrow> (string \<Rightarrow> int \<Rightarrow> 'm result list)
     \<Rightarrow> string \<Rightarrow> int option \<Rightarrow> py_error + 'm fused list" where
  "hybrid_search = hybrid_search_with 0.15 0.20 0.25"

definition retrieve_with ::
  "real \<Rightarrow> real \<Rightarrow> real \<Rightarrow> (string \<Rightarrow> int \<Rightarrow> 'm result list) \<Rightarrow> (string \<Rightarrow> int \<Rightarrow> 'm result list)
     \<Rightarrow> string \<Rightarrow> int option \<Rightarrow> py_error + ('m fused list \<times> real)" where
  "retrieve_with location_boost materials_boost term_boost vector_search lexical_search
       query top_k =
     (let k = (case top_k of None \<Rightarrow> TOP_K | Some n \<Rightarrow> n) in
      case hybrid_search_with location_boost materials_boost term_boost vector_search
             lexical_search query (Some k) of
        Inl e \<Rightarrow> Inl e
      | Inr results \<Rightarrow>
          Inr (results,
               case results of
                 [] \<Rightarrow> 0.0
               | r # _ \<Rightarrow> max 0.0 (min 1.0 (hybrid_score r))))"

definition retrieve ::
  "(string \<Rightarrow> int \<Rightarrow> 'm result list) \<Rightarrow> (string \<Rightarrow> int \<Rightarrow> 'm result list)
     \<Rightarrow> string \<Rightarrow> int option \<Rightarrow> py_error + ('m fused list \<times> real)" where
  "retrieve = retrieve_with 0.15 0.20 0.25"

subsection \<open>Predicates used in the statements about the chunker\<close>

text \<open>
  The shape of an emitted chunk: its text is the slice of its span, the slice is not
  blank, and its end is the one the branch taken at its cursor computes.
\<close>

definition chunk_shape ::
  "string \<Rightarrow> (int \<times> int) list \<Rightarrow> (int \<times> int) list \<Rightarrow> int \<Rightarrow> chunk \<Rightarrow> bool" where
  "chunk_shape text tables slides chunk_size c =
     (case c of (chunk, start, end) \<Rightarrow>
        chunk = py_slice text start end \<and> strip chunk \<noteq> [] \<and>
        end = (if fst (is_in_protected_region tables slides start)
               then snd (snd (is_in_protected_region tables slides start))
               else normal_end text tables slides chunk_size start))"

text \<open>
  A position is covered when it lies inside the span of some emitted chunk; the chunk
  holds the character when, in addition, its text has that character at the matching
  offset.
\<close>


definition covered :: "chunk list \<Rightarrow> int \<Rightarrow> bool" where
  "covered chunks p = list_ex (\<lambda>(chunk, start, end). start \<le> p \<and> p < end) chunks"

definition holds_char :: "string \<Rightarrow> chunk list \<Rightarrow> nat \<Rightarrow> bool" where
  "holds_char text chunks p =
     list_ex (\<lambda>(chunk, start, end). 0 \<le> start \<and> start \<le> int p \<and> int p < end \<and>
                nat (int p - start) < length chunk \<and>
                chunk ! nat (int p - start) = text ! p) chunks"

text \<open>
  A chunk splits a region when their spans overlap and the span of the chunk does not
  hold the whole region.
\<close>

definition splits_region :: "int \<times> int \<Rightarrow> chunk \<Rightarrow> bool" where
  "splits_region r c =
     (case r of (a, b) \<Rightarrow> case c of (chunk, start, end) \<Rightarrow>
        max a start < min b end \<and> \<not> (start \<le> a \<and> b \<le> end))"

text \<open>
  The nearest following closing marker of an opening marker at \<open>start_pos\<close>: a closing
  marker that starts after it, with no other such marker starting earlier.
\<close>

definition nearest_close :: "int \<Rightarrow> (int \<times> int) list \<Rightarrow> int \<times> int \<Rightarrow> bool" where
  "nearest_close start_pos closes c =
     (c \<in> set closes \<and> start_pos < fst c \<and>
      (\<forall>c' \<in> set closes. start_pos < fst c' \<longrightarrow> fst c \<le> fst c'))"

text \<open>
  The cursors of the loop: it starts at 0; a protected step moves the cursor to the end of
  the region reported there (line 92), an ordinary step advances it by
  \<open>chunk_size - overlap\<close> (line 112). The loop handles cursor \<open>n\<close> when that cursor and
  every cursor before it lie inside the text (the loop condition of line 83 and the
  \<open>break\<close> of line 115).
\<close>

definition next_cursor :: "(int \<times> int) list \<Rightarrow> (int \<times> int) list \<Rightarrow> int \<Rightarrow> int \<Rightarrow> int \<Rightarrow> int" where
  "next_cursor tables slides chunk_size overlap start =
     (if fst (is_in_protected_region tables slides start)
      then snd (snd (is_in_protected_region tables slides start))
      else start + (chunk_size - overlap))"

definition cursor :: "(int \<times> int) list \<Rightarrow> (int \<times> int) list \<Rightarrow> int \<Rightarrow> int \<Rightarrow> nat \<Rightarrow> int" where
  "cursor tables slides chunk_size overlap n =
     ((next_cursor tables slides chunk_size overlap) ^^ n) 0"

definition visits ::
  "string \<Rightarrow> (int \<times> int) list \<Rightarrow> (int \<times> int) list \<Rightarrow> int \<Rightarrow> int \<Rightarrow> nat \<Rightarrow> bool" where
  "visits text tables slides chunk_size overlap n =
     list_all (\<lambda>m. cursor tables slides chunk_size overlap m < int (length text)) [0..<Suc n]"

text \<open>Every range of a list starts inside the text, at an opening bracket.\<close>

definition marker_starts :: "string \<Rightarrow> (int \<times> int) list \<Rightarrow> bool" where
  "marker_starts text ranges =
     list_all (\<lambda>(a, b). 0 \<le> a \<and> a < int (length text) \<and> text ! nat a = CHR ''['') ranges"


subsection \<open>Predicates used in the statements about the retriever\<close>

text \<open>
  What \<open>numpy.argsort\<close> guarantees: a permutation of the indices of its argument, by
  increasing value. The order among equal values is left open. \<open>stable_argsort\<close> is one
  such function, used to run \<open>bm25_search\<close> on concrete inputs.
\<close>

definition is_argsort :: "(real list \<Rightarrow> nat list) \<Rightarrow> bool" where
  "is_argsort argsort =
     (\<forall>scores. distinct (argsort scores) \<and> set (argsort scores) = {..<length scores} \<and>
               sorted (map (\<lambda>i. scores ! i) (argsort scores)))"

definition stable_argsort :: "real list \<Rightarrow> nat list" where
  "stable_argsort scores = sort_key (\<lambda>i. scores ! i) [0..<length scores]"

text \<open>
  The sum of the normalised scores of the results of a list that carry a given text; the
  score stored in \<open>merged\<close> under a text (0 when the text is no key); and the property
  that every entry of \<open>merged\<close> is stored under its own text.
\<close>

definition weight_sum :: "string \<Rightarrow> 'm scored list \<Rightarrow> real" where
  "weight_sum key results =
     sum_list (map normalized_score (filter (\<lambda>r. rtext r = key) results))"

definition fused_score :: "(string \<times> 'm fused) list \<Rightarrow> string \<Rightarrow> real" where
  "fused_score merged key = (case map_of merged key of None \<Rightarrow> 0 | Some v \<Rightarrow> hybrid_score v)"

definition keyed_by_text :: "(string \<times> 'm fused) list \<Rightarrow> bool" where
  "keyed_by_text merged = list_all (\<lambda>(key, v). rtext v = key) merged"

text \<open>
  The two lists as the merge receives them when no result is boosted: every result with
  its normalised score (lines 144 to 152).
\<close>

definition scored_results :: "'m result list \<Rightarrow> 'm scored list" where
  "scored_results results =
     (case normalize_scores results of
        Inl e \<Rightarrow> []
      | Inr normalized \<Rightarrow> set_normalized normalized results)"

text \<open>The clamp of lines 202 and 223, \<open>max(0.0, min(1.0, x))\<close>.\<close>

definition clamp01 :: "real \<Rightarrow> real" where
  "clamp01 x = max 0.0 (min 1.0 x)"

text \<open>
  \<open>final_results\<close> after the sort of line 206, before the cut of line 208, as a function
  of the two raw lists.
\<close>

definition final_results ::
  "real \<Rightarrow> real \<Rightarrow> real \<Rightarrow> string \<Rightarrow> 'm result list \<Rightarrow> 'm result list \<Rightarrow> 'm fused list" where
  "final_results location_boost materials_boost term_boost query vector_results bm25_results =
     (case boost_stage_with location_boost materials_boost term_boost query
             (scored_results vector_results) (scored_results bm25_results) of
        (keyword_boost, vs, bs) \<Rightarrow>
          sort_by_hybrid (map snd (clamp_boost keyword_boost (merge_results vs bs))))"

text \<open>
  The normalised scores of the results carrying a text, each raised by 0.25 and capped at
  1.0 when the text of the result holds a materials term, summed.
\<close>

definition capped_boost_sum :: "string \<Rightarrow> 'm scored list \<Rightarrow> real" where
  "capped_boost_sum key results =
     sum_list (map (\<lambda>r. if has_materials_term (lower (rtext r))
                           then min 1 (normalized_score r + 0.25)
                           else normalized_score r)
                 (filter (\<lambda>r. rtext r = key) results))"

text \<open>
  An index that answers every query with the first \<open>n\<close> results of one fixed ranking; it
  stands for the vector store and for the lexical index on concrete inputs.
\<close>

definition fixed_search :: "'m result list \<Rightarrow> string \<Rightarrow> int \<Rightarrow> 'm result list" where
  "fixed_search ranking query n = py_slice ranking 0 n"


section \<open>The chunker: termination and the shape of the chunks\<close>


lemma region_end_at_Some:
  "region_end_at ranges pos = Some e \<Longrightarrow> pos < e \<and> (\<exists>s. (s, e) \<in> set ranges \<and> s \<le> pos)"
  by (induction ranges pos rule: region_end_at.induct) (auto split: if_splits)

lemma region_end_at_None:
  "region_end_at ranges pos = None \<longleftrightarrow> (\<forall>(s, e) \<in> set ranges. \<not> (s \<le> pos \<and> pos < e))"
  by (induction ranges pos rule: region_end_at.induct) auto

lemma protected_end_gt:
  "fst (is_in_protected_region tables slides pos) \<Longrightarrow>
     pos < snd (snd (is_in_protected_region tables slides pos))"
  by (auto simp: is_in_protected_region_def split: option.splits dest: region_end_at_Some)

lemma chunk_loop_rule:
  assumes step: "overlap < chunk_size"
    and init: "P start chunks"
    and prot: "\<And>s cs. P s cs \<Longrightarrow> s < int (length text) \<Longrightarrow>
                 fst (is_in_protected_region tables slides s) \<Longrightarrow>
                 P (snd (snd (is_in_protected_region tables slides s)))
                   (append_chunk text s (snd (snd (is_in_protected_region tables slides s))) cs)"
    and norm: "\<And>s cs. P s cs \<Longrightarrow> s < int (length text) \<Longrightarrow>
                 \<not> fst (is_in_protected_region tables slides s) \<Longrightarrow>
                 P (s + (chunk_size - overlap))
                   (append_chunk text s (normal_end text tables slides chunk_size s) cs)"
  shows "\<exists>result final. chunk_loop text tables slides chunk_size overlap start chunks = Some result
           \<and> P final result \<and> int (length text) \<le> final"
  using init
proof (induction "nat (int (length text) - start)" arbitrary: start chunks rule: less_induct)
  case less
  show ?case
  proof (cases "start < int (length text)")
    case False
    then have "chunk_loop text tables slides chunk_size overlap start chunks = Some chunks"
      by (subst chunk_loop.simps) simp
    with False less.prems show ?thesis by auto
  next
    case inside: True
    show ?thesis
    proof (cases "fst (is_in_protected_region tables slides start)")
      case True
      let ?e = "snd (snd (is_in_protected_region tables slides start))"
      have gt: "start < ?e" using True by (rule protected_end_gt)
      have P': "P ?e (append_chunk text start ?e chunks)"
        using less.prems inside True by (rule prot)
      have "nat (int (length text) - ?e) < nat (int (length text) - start)"
        using gt inside by simp
      from less.hyps [OF this P']
      obtain result final where
        "chunk_loop text tables slides chunk_size overlap ?e (append_chunk text start ?e chunks) = Some result"
        "P final result" "int (length text) \<le> final" by blast
      moreover have "chunk_loop text tables slides chunk_size overlap start chunks =
        chunk_loop text tables slides chunk_size overlap ?e (append_chunk text start ?e chunks)"
        using inside True by (subst chunk_loop.simps) simp
      ultimately show ?thesis by auto
    next
      case False
      let ?s = "start + (chunk_size - overlap)"
      let ?cs = "append_chunk text start (normal_end text tables slides chunk_size start) chunks"
      have P': "P ?s ?cs" using less.prems inside False by (rule norm)
      show ?thesis
      proof (cases "int (length text) \<le> ?s")
        case True
        then have "chunk_loop text tables slides chunk_size overlap start chunks = Some ?cs"
          using inside False by (subst chunk_loop.simps) simp
        with P' True show ?thesis by auto
      next
        case more: False
        have "nat (int (length text) - ?s) < nat (int (length text) - start)"
          using step inside by simp
        from less.hyps [OF this P']
        obtain result final where
          "chunk_loop text tables slides chunk_size overlap ?s ?cs = Some result"
          "P final result" "int (length text) \<le> final" by blast
        moreover have "chunk_loop text tables slides chunk_size overlap start chunks =
          chunk_loop text tables slides chunk_size overlap ?s ?cs"
          using inside False more by (subst chunk_loop.simps) simp
        ultimately show ?thesis by auto
      qed
    qed
  qed
qed


lemma append_chunk_shape:
  assumes "\<forall>c \<in> set chunks. chunk_shape text tables slides chunk_size c"
    and "end = (if fst (is_in_protected_region tables slides start)
               then snd (snd (is_in_protected_region tables slides start))
               else normal_end text tables slides chunk_size start)"
  shows "\<forall>c \<in> set (append_chunk text start end chunks). chunk_shape text tables slides chunk_size c"
  using assms by (auto simp: append_chunk_def chunk_shape_def Let_def)

lemma chunk_loop_shape:
  assumes "overlap < chunk_size"
  shows "\<exists>chunks. chunk_loop text tables slides chunk_size overlap 0 [] = Some chunks
           \<and> (\<forall>c \<in> set chunks. chunk_shape text tables slides chunk_size c)"
proof -
  let ?P = "\<lambda>(s::int) cs. \<forall>c \<in> set cs. chunk_shape text tables slides chunk_size c"
  have "\<exists>result final. chunk_loop text tables slides chunk_size overlap 0 [] = Some result
           \<and> ?P final result \<and> int (length text) \<le> final"
  proof (rule chunk_loop_rule [where P = ?P, OF assms])
    show "?P 0 []" by simp
  next
    fix s cs
    assume "?P s cs" "fst (is_in_protected_region tables slides s)"
    then show "?P (snd (snd (is_in_protected_region tables slides s)))
                 (append_chunk text s (snd (snd (is_in_protected_region tables slides s))) cs)"
      by (intro append_chunk_shape) simp_all
  next
    fix s cs
    assume "?P s cs" "\<not> fst (is_in_protected_region tables slides s)"
    then show "?P (s + (chunk_size - overlap))
                 (append_chunk text s (normal_end text tables slides chunk_size s) cs)"
      by (intro append_chunk_shape) simp_all
  qed
  then show ?thesis by blast
qed

lemma normal_end_capped:
  assumes "start + chunk_size < int (length text)"
    and "fst (is_in_protected_region tables slides (start + chunk_size))"
  shows "normal_end text tables slides chunk_size start =
           min (snd (snd (is_in_protected_region tables slides (start + chunk_size))))
               (start + 2 * chunk_size)"
  using assms by (auto simp: normal_end_def Let_def mult.commute split: prod.splits)

subsection \<open>Atomicity of protected regions\<close>

text \<open>
  Claim C1. No emitted chunk holds a protected region only in part: the docstring of
  \<open>chunk_text\<close> says that tables and slides are kept intact and not split across chunks,
  and the protected branch is commented \<open>Include the entire region\<close>. The code does
  otherwise. After an ordinary chunk the cursor advances by \<open>chunk_size - overlap\<close>
  whatever the end of that chunk was, so it can land in the middle of a region the chunk
  was just extended over; the protected branch then emits the text from the cursor to the
  end of the region, which is a suffix of the region only.

  On the text below, with \<open>chunk_size = 20\<close> and \<open>overlap = 2\<close>, the only region is the table
  at \<open>(5, 26)\<close>. The first chunk is extended from 20 to 26 and holds the table whole. The
  cursor moves to 18, inside the table, and the second chunk is \<open>text[18:26]\<close>: it splits
  the table. The cap of twice the target size plays no part, since the region ends at 26,
  before \<open>0 + 2 * 20\<close>.
\<close>

theorem chunk_text_splits_table_on_overlap:
  "table_ranges ''aaaaa[TABLE 1]x[END TABLE]zz'' = [(5, 26)] \<and>
   slide_ranges ''aaaaa[TABLE 1]x[END TABLE]zz'' = [] \<and>
   chunk_text ''aaaaa[TABLE 1]x[END TABLE]zz'' (Some 20) (Some 2) =
     Some [(''aaaaa[TABLE 1]x[END TABLE]'', 0, 26), (''D TABLE]'', 18, 26), (''zz'', 26, 46)] \<and>
   is_in_protected_region (table_ranges ''aaaaa[TABLE 1]x[END TABLE]zz'')
     (slide_ranges ''aaaaa[TABLE 1]x[END TABLE]zz'') 18 = (True, Some Table, 26) \<and>
   splits_region (5, 26) (''D TABLE]'', 18, 26) \<and>
   (26::int) \<le> 0 + 2 * 20"
proof -
  have "table_ranges ''aaaaa[TABLE 1]x[END TABLE]zz'' = [(5, 26)]"
    by code_simp
  moreover have "slide_ranges ''aaaaa[TABLE 1]x[END TABLE]zz'' = []"
    by code_simp
  moreover have "chunk_text ''aaaaa[TABLE 1]x[END TABLE]zz'' (Some 20) (Some 2) =
     Some [(''aaaaa[TABLE 1]x[END TABLE]'', 0, 26), (''D TABLE]'', 18, 26), (''zz'', 26, 46)]"
    by code_simp
  moreover have "is_in_protected_region (table_ranges ''aaaaa[TABLE 1]x[END TABLE]zz'')
     (slide_ranges ''aaaaa[TABLE 1]x[END TABLE]zz'') 18 = (True, Some Table, 26)"
    by code_simp
  moreover have "splits_region (5, 26) (''D TABLE]'', 18, 26)"
    by (simp add: splits_region_def)
  ultimately show ?thesis by simp
qed


subsection \<open>Coverage\<close>

lemma strip_nonempty_iff: "strip s \<noteq> [] \<longleftrightarrow> (\<exists>c \<in> set s. \<not> is_space c)"
proof
  assume "strip s \<noteq> []"
  then have "dropWhile is_space s \<noteq> []" by (cases "dropWhile is_space s") (simp_all add: strip_def)
  then show "\<exists>c \<in> set s. \<not> is_space c" by simp
next
  assume "\<exists>c \<in> set s. \<not> is_space c"
  then have ne: "dropWhile is_space s \<noteq> []" by simp
  then have "\<not> is_space (hd (dropWhile is_space s))" by (rule hd_dropWhile)
  moreover have "hd (dropWhile is_space s) \<in> set (rev (dropWhile is_space s))"
    using ne by simp
  ultimately have "dropWhile is_space (rev (dropWhile is_space s)) \<noteq> []"
    by auto
  then show "strip s \<noteq> []" by (simp add: strip_def)
qed

lemma py_slice_nth:
  assumes "0 \<le> s" "s \<le> int p" "int p < e" "p < length xs"
  shows "nat (int p - s) < length (py_slice xs s e) \<and>
         py_slice xs s e ! nat (int p - s) = xs ! p"
proof -
  let ?n = "int (length xs)"
  have lo: "slice_bound ?n s = s" using assms by (simp add: slice_bound_def)
  have hi: "slice_bound ?n e = min e ?n" using assms by (auto simp: slice_bound_def)
  have sl: "py_slice xs s e = take (nat (min e ?n - s)) (drop (nat s) xs)"
    by (simp add: py_slice_def lo hi)
  have i: "nat (int p - s) < nat (min e ?n - s)" using assms by auto
  have j: "nat s + nat (int p - s) = p" using assms by auto
  have len: "nat (int p - s) < length (py_slice xs s e)"
    unfolding sl using assms i by auto
  have "py_slice xs s e ! nat (int p - s) = drop (nat s) xs ! nat (int p - s)"
    unfolding sl using i by simp
  also have "\<dots> = xs ! (nat s + nat (int p - s))"
    using assms by (intro nth_drop) auto
  finally show ?thesis using len j by simp
qed

lemma normal_end_ge:
  assumes "0 \<le> chunk_size"
  shows "start + chunk_size \<le> normal_end text tables slides chunk_size start"
  using assms protected_end_gt [of tables slides "start + chunk_size"]
  by (auto simp: normal_end_def Let_def split: prod.splits)

lemma holds_char_append: "holds_char text chunks p \<Longrightarrow> holds_char text (append_chunk text s e chunks) p"
  by (auto simp: holds_char_def append_chunk_def Let_def list_ex_iff)

lemma append_chunk_holds:
  assumes "0 \<le> s" "s \<le> int p" "int p < e" "p < length text" "\<not> is_space (text ! p)"
  shows "holds_char text (append_chunk text s e chunks) p"
proof -
  from py_slice_nth [OF assms(1-4)]
  have n: "nat (int p - s) < length (py_slice text s e)"
    and v: "py_slice text s e ! nat (int p - s) = text ! p" by auto
  have "text ! p \<in> set (py_slice text s e)" using n v by (metis nth_mem)
  then have "strip (py_slice text s e) \<noteq> []"
    using assms(5) by (auto simp: strip_nonempty_iff)
  then show ?thesis
    using assms n v by (auto simp: holds_char_def append_chunk_def Let_def list_ex_iff)
qed

lemma chunk_loop_covers:
  assumes "0 \<le> overlap" "overlap < chunk_size"
  shows "\<exists>chunks. chunk_loop text tables slides chunk_size overlap 0 [] = Some chunks
           \<and> (\<forall>p < length text. \<not> is_space (text ! p) \<longrightarrow> holds_char text chunks p)"
proof -
  let ?P = "\<lambda>(s::int) cs. 0 \<le> s \<and>
     (\<forall>p < length text. int p < s \<and> \<not> is_space (text ! p) \<longrightarrow> holds_char text cs p)"
  have "\<exists>result final. chunk_loop text tables slides chunk_size overlap 0 [] = Some result
           \<and> ?P final result \<and> int (length text) \<le> final"
  proof (rule chunk_loop_rule [where P = ?P, OF assms(2)])
    show "?P 0 []" by simp
  next
    fix s cs
    let ?e = "snd (snd (is_in_protected_region tables slides s))"
    assume inv: "?P s cs" and pr: "fst (is_in_protected_region tables slides s)"
    have gt: "s < ?e" using pr by (rule protected_end_gt)
    show "?P ?e (append_chunk text s ?e cs)"
    proof (intro conjI allI impI)
      show "0 \<le> ?e" using inv gt by simp
    next
      fix p assume p: "p < length text" "int p < ?e \<and> \<not> is_space (text ! p)"
      show "holds_char text (append_chunk text s ?e cs) p"
      proof (cases "int p < s")
        case True
        then show ?thesis using inv p by (intro holds_char_append) simp
      next
        case False
        then show ?thesis using inv p by (intro append_chunk_holds) simp_all
      qed
    qed
  next
    fix s cs
    let ?e = "normal_end text tables slides chunk_size s"
    assume inv: "?P s cs"
    have ge: "s + chunk_size \<le> ?e" using assms by (intro normal_end_ge) simp
    show "?P (s + (chunk_size - overlap)) (append_chunk text s ?e cs)"
    proof (intro conjI allI impI)
      show "0 \<le> s + (chunk_size - overlap)" using inv assms by simp
    next
      fix p assume p: "p < length text"
        "int p < s + (chunk_size - overlap) \<and> \<not> is_space (text ! p)"
      show "holds_char text (append_chunk text s ?e cs) p"
      proof (cases "int p < s")
        case True
        then show ?thesis using inv p by (intro holds_char_append) simp
      next
        case False
        have "int p < ?e" using p ge assms by simp
        then show ?thesis using False inv p by (intro append_chunk_holds) simp_all
      qed
    qed
  qed
  then obtain result final where
    r: "chunk_loop text tables slides chunk_size overlap 0 [] = Some result"
    and inv: "?P final result" and fin: "int (length text) \<le> final" by blast
  have "\<forall>p < length text. \<not> is_space (text ! p) \<longrightarrow> holds_char text result p"
    using inv fin by auto
  with r show ?thesis by blast
qed

text \<open>
  Claim C2 (as amended). For every text and every \<open>0 \<le> overlap < chunk_size\<close> the loop
  returns, and every position of the text that holds a non-whitespace character lies inside
  the span of an emitted chunk whose text has that character at the matching offset.
  Windows whose slice is blank are not emitted, so whitespace positions may stay outside
  every span.
\<close>

theorem chunk_text_covers_nonblank:
  assumes "0 \<le> overlap" "overlap < chunk_size"
  shows "\<exists>chunks. chunk_text text (Some chunk_size) (Some overlap) = Some chunks \<and>
           (\<forall>p < length text. \<not> is_space (text ! p) \<longrightarrow>
              covered chunks (int p) \<and> holds_char text chunks p)"
proof -
  obtain chunks where run: "chunk_loop text (table_ranges text) (slide_ranges text)
        chunk_size overlap 0 [] = Some chunks"
    and cov: "\<forall>p < length text. \<not> is_space (text ! p) \<longrightarrow> holds_char text chunks p"
    using chunk_loop_covers [OF assms] by blast
  have "chunk_text text (Some chunk_size) (Some overlap) = Some chunks"
    using run by (simp add: chunk_text_def)
  moreover have "holds_char text chunks p \<Longrightarrow> covered chunks (int p)" for p
    by (auto simp: holds_char_def covered_def list_ex_iff)
  ultimately show ?thesis using cov by blast
qed

theorem chunk_text_covers_nonblank_witness:
  "(0::int) \<le> 2 \<and> (2::int) < 10 \<and>
   chunk_text ''abc                    def'' (Some 10) (Some 2) =
     Some [(''abc       '', 0, 10), (''       def'', 16, 26), (''ef'', 24, 34)] \<and>
   (23::nat) < length ''abc                    def'' \<and>
   \<not> is_space (''abc                    def'' ! 23) \<and>
   covered [(''abc       '', 0, 10), (''       def'', 16, 26), (''ef'', 24, 34)] (int 23) \<and>
   holds_char ''abc                    def''
     [(''abc       '', 0, 10), (''       def'', 16, 26), (''ef'', 24, 34)] 23"
proof -
  define T where "T = ''abc                    def''"
  define R where "R = [(''abc       '', 0::int, 10::int), (''       def'', 16, 26), (''ef'', 24, 34)]"
  have h0: "(0::int) \<le> 2" and h1: "(2::int) < 10" by simp_all
  have run: "chunk_text T (Some 10) (Some 2) = Some R"
    unfolding T_def R_def by code_simp
  have len: "(23::nat) < length T" unfolding T_def by simp
  have ns: "\<not> is_space (T ! 23)" unfolding T_def by code_simp
  obtain chunks where c: "chunk_text T (Some 10) (Some 2) = Some chunks"
    and p: "\<forall>p < length T. \<not> is_space (T ! p) \<longrightarrow>
              covered chunks (int p) \<and> holds_char T chunks p"
    using chunk_text_covers_nonblank [OF h0 h1, of T] by blast
  have "chunks = R" using c run by simp
  with p len ns have "covered R (int 23) \<and> holds_char T R 23" by blast
  with h0 h1 run len ns show ?thesis unfolding T_def R_def by blast
qed

text \<open>
  The claim as stated (every position is covered) fails: with \<open>chunk_size = 10\<close> and
  \<open>overlap = 2\<close> the window starting at offset 8 is blank and is dropped, so offsets 10 to
  15 lie in no span.
\<close>

theorem chunk_text_coverage_counterexample:
  "(2::int) < 10 \<and>
   chunk_text ''abc                    def'' (Some 10) (Some 2) =
     Some [(''abc       '', 0, 10), (''       def'', 16, 26), (''ef'', 24, 34)] \<and>
   (12::nat) < length ''abc                    def'' \<and>
   \<not> covered [(''abc       '', 0, 10), (''       def'', 16, 26), (''ef'', 24, 34)] (int 12)"
proof -
  have "chunk_text ''abc                    def'' (Some 10) (Some 2) =
     Some [(''abc       '', 0, 10), (''       def'', 16, 26), (''ef'', 24, 34)]"
    by code_simp
  moreover have "\<not> covered [(''abc       '', 0, 10), (''       def'', 16, 26), (''ef'', 24, 34)] (int 12)"
    by (simp add: covered_def)
  ultimately show ?thesis by simp
qed

subsection \<open>Boundary detection\<close>

lemma scan_starts_ge: "(a, b) \<in> set (scan m pos skip s) \<Longrightarrow> pos \<le> a"
proof (induction s arbitrary: pos skip)
  case Nil
  then show ?case by simp
next
  case (Cons c cs)
  show ?case
  proof (cases "0 < skip")
    case True
    with Cons.prems have "(a, b) \<in> set (scan m (pos + 1) (skip - 1) cs)" by simp
    from Cons.IH [OF this] show ?thesis by simp
  next
    case False
    show ?thesis
    proof (cases "m (c # cs)")
      case None
      with False Cons.prems have "(a, b) \<in> set (scan m (pos + 1) 0 cs)" by simp
      from Cons.IH [OF this] show ?thesis by simp
    next
      case (Some n)
      with False Cons.prems
      have "(a, b) = (pos, pos + int n) \<or> (a, b) \<in> set (scan m (pos + 1) (n - 1) cs)"
        by simp
      then show ?thesis using Cons.IH [of "pos + 1" "n - 1"] by auto
    qed
  qed
qed


lemma scan_sorted: "sorted_wrt (<) (map fst (scan m pos skip s))"
proof (induction s arbitrary: pos skip)
  case Nil
  then show ?case by simp
next
  case (Cons c cs)
  show ?case
  proof (cases "0 < skip")
    case True
    then show ?thesis using Cons.IH by simp
  next
    case False
    show ?thesis
    proof (cases "m (c # cs)")
      case None
      with False show ?thesis using Cons.IH by simp
    next
      case (Some n)
      have "pos < a" if "(a, b) \<in> set (scan m (pos + 1) (n - 1) cs)" for a b
        using scan_starts_ge [OF that] by simp
      with False Some show ?thesis using Cons.IH [of "pos + 1" "n - 1"] by auto
    qed
  qed
qed


lemma finditer_sorted: "sorted_wrt (<) (map fst (finditer m text))"
  by (simp add: finditer_def scan_sorted)


lemma first_end_after_filter:
  "first_end_after start_pos closes =
     (case filter (\<lambda>c. start_pos < fst c) closes of [] \<Rightarrow> [] | c # _ \<Rightarrow> [(start_pos, snd c)])"
  by (induction start_pos closes rule: first_end_after.induct) auto


lemma filter_sorted_hd_least:
  assumes "sorted_wrt (<) (map fst closes)" "filter P closes = h # rest" "c \<in> set closes" "P c"
  shows "fst h \<le> fst (c :: int \<times> int)"
proof -
  have "sorted_wrt (<) (map fst (filter P closes))"
    using assms(1) by (simp add: sorted_wrt_map sorted_wrt_filter)
  then have "\<forall>x \<in> set rest. fst h < fst x" using assms(2) by (simp add: sorted_wrt_map)
  moreover have "c \<in> set (filter P closes)" using assms(3,4) by simp
  then have "c \<in> set (h # rest)" using assms(2) by simp
  ultimately show ?thesis by auto
qed

lemma first_end_after_nearest:
  assumes "sorted_wrt (<) (map fst closes)"
  shows "(a, b) \<in> set (first_end_after start_pos closes) \<longleftrightarrow>
           a = start_pos \<and> (\<exists>c. nearest_close start_pos closes c \<and> b = snd c)"
proof (cases "filter (\<lambda>c. start_pos < fst c) closes")
  case Nil
  then have "\<forall>c \<in> set closes. \<not> start_pos < fst c" by (simp add: filter_empty_conv)
  then have "\<not> nearest_close start_pos closes c" for c by (auto simp: nearest_close_def)
  moreover have "first_end_after start_pos closes = []"
    using Nil by (simp add: first_end_after_filter)
  ultimately show ?thesis by simp
next
  case (Cons h rest)
  have "h \<in> set (filter (\<lambda>c. start_pos < fst c) closes)" using Cons by simp
  then have hin: "h \<in> set closes" and hgt: "start_pos < fst h" by simp_all
  have least: "fst h \<le> fst c" if "c \<in> set closes" "start_pos < fst c" for c
    using filter_sorted_hd_least [OF assms Cons that] .
  have nh: "nearest_close start_pos closes h"
    unfolding nearest_close_def using hin hgt least by blast
  have uniq: "c = h" if n: "nearest_close start_pos closes c" for c
  proof -
    have cin: "c \<in> set closes" and cgt: "start_pos < fst c"
      and cl: "\<forall>c' \<in> set closes. start_pos < fst c' \<longrightarrow> fst c \<le> fst c'"
      using n unfolding nearest_close_def by simp_all
    have "fst c \<le> fst h" using cl hin hgt by blast
    moreover have "fst h \<le> fst c" using least cin cgt by blast
    ultimately have eq: "fst c = fst h" by simp
    have d: "distinct (map fst closes)"
      using assms by (simp add: strict_sorted_iff)
    have m1: "(fst c, snd c) \<in> set closes" using cin by simp
    have "(fst h, snd h) \<in> set closes" using hin by simp
    then have m2: "(fst c, snd h) \<in> set closes" unfolding eq .
    from eq_key_imp_eq_value [OF d m1 m2] have "snd c = snd h" .
    with eq show ?thesis by (simp add: prod_eq_iff)
  qed
  have fe: "first_end_after start_pos closes = [(start_pos, snd h)]"
    using Cons by (simp add: first_end_after_filter)
  show ?thesis
  proof
    assume "(a, b) \<in> set (first_end_after start_pos closes)"
    then have "a = start_pos" "b = snd h" using fe by simp_all
    with nh show "a = start_pos \<and> (\<exists>c. nearest_close start_pos closes c \<and> b = snd c)"
      by blast
  next
    assume "a = start_pos \<and> (\<exists>c. nearest_close start_pos closes c \<and> b = snd c)"
    then obtain c where "a = start_pos" "nearest_close start_pos closes c" "b = snd c"
      by blast
    with uniq [of c] show "(a, b) \<in> set (first_end_after start_pos closes)"
      using fe by simp
  qed
qed

lemma pair_tables_mem:
  "(a, b) \<in> set (pair_tables opens closes) \<longleftrightarrow>
     (\<exists>se. (a, se) \<in> set opens) \<and> (a, b) \<in> set (first_end_after a closes)"
proof (induction opens closes rule: pair_tables.induct)
  case (1 table_ends)
  then show ?case by simp
next
  case (2 start_pos start_end table_starts table_ends)
  have "(a, b) \<in> set (first_end_after start_pos table_ends) \<Longrightarrow> a = start_pos"
    by (auto simp: first_end_after_filter split: list.splits)
  then show ?case using 2 by auto
qed


lemma pair_tables_starts:
  "map fst (pair_tables opens closes) =
     filter (\<lambda>a. \<exists>c \<in> set closes. a < fst c) (map fst opens)"
proof (induction opens closes rule: pair_tables.induct)
  case (1 table_ends)
  then show ?case by simp
next
  case (2 start_pos start_end table_starts table_ends)
  have "map fst (first_end_after start_pos table_ends) =
          (if \<exists>c \<in> set table_ends. start_pos < fst c then [start_pos] else [])"
    by (auto simp: first_end_after_filter filter_empty_conv split: list.splits)
  then show ?case using 2 by simp
qed

lemma slide_ranges_zip:
  "map (slide_range_at ms n) [0..<length ms] = zip (map fst ms) (tl (map fst ms) @ [n])"
proof (rule nth_equalityI)
  show "length (map (slide_range_at ms n) [0..<length ms]) =
          length (zip (map fst ms) (tl (map fst ms) @ [n]))"
    by (cases ms) simp_all
next
  fix i assume "i < length (map (slide_range_at ms n) [0..<length ms])"
  then have i: "i < length ms" by simp
  have r: "(tl (map fst ms) @ [n]) ! i = (if i + 1 < length ms then fst (ms ! (i + 1)) else n)"
    using i by (cases ms) (auto simp: nth_append)
  have len: "i < length (tl (map fst ms) @ [n])" using i by (cases ms) simp_all
  have "zip (map fst ms) (tl (map fst ms) @ [n]) ! i =
          (map fst ms ! i, (tl (map fst ms) @ [n]) ! i)"
    using i len by (intro nth_zip) simp_all
  also have "\<dots> = slide_range_at ms n i"
    using i r by (simp add: slide_range_at_def)
  also have "\<dots> = map (slide_range_at ms n) [0..<length ms] ! i"
    using i by simp
  finally show "map (slide_range_at ms n) [0..<length ms] ! i =
          zip (map fst ms) (tl (map fst ms) @ [n]) ! i" by simp
qed

lemma is_in_protected_region_table:
  assumes "\<exists>(a, b) \<in> set tables. a \<le> pos \<and> pos < b"
  shows "\<exists>(a, b) \<in> set tables. a \<le> pos \<and> pos < b \<and>
           is_in_protected_region tables slides pos = (True, Some Table, b)"
proof -
  from assms have "region_end_at tables pos \<noteq> None"
    by (auto simp: region_end_at_None)
  then obtain e where e: "region_end_at tables pos = Some e" by blast
  from region_end_at_Some [OF e] obtain s where "(s, e) \<in> set tables" "s \<le> pos" "pos < e"
    by blast
  moreover have "is_in_protected_region tables slides pos = (True, Some Table, e)"
    using e by (simp add: is_in_protected_region_def)
  ultimately show ?thesis by blast
qed

lemma is_in_protected_region_slide:
  assumes "\<not> (\<exists>(a, b) \<in> set tables. a \<le> pos \<and> pos < b)"
    and "\<exists>(a, b) \<in> set slides. a \<le> pos \<and> pos < b"
  shows "\<exists>(a, b) \<in> set slides. a \<le> pos \<and> pos < b \<and>
           is_in_protected_region tables slides pos = (True, Some Slide, b)"
proof -
  from assms(1) have t: "region_end_at tables pos = None"
    by (auto simp: region_end_at_None)
  from assms(2) have "region_end_at slides pos \<noteq> None"
    by (auto simp: region_end_at_None)
  then obtain e where e: "region_end_at slides pos = Some e" by blast
  from region_end_at_Some [OF e] obtain s where "(s, e) \<in> set slides" "s \<le> pos" "pos < e"
    by blast
  moreover have "is_in_protected_region tables slides pos = (True, Some Slide, e)"
    using t e by (simp add: is_in_protected_region_def)
  ultimately show ?thesis by blast
qed

lemma is_in_protected_region_none:
  assumes "\<not> (\<exists>(a, b) \<in> set tables. a \<le> pos \<and> pos < b)"
    and "\<not> (\<exists>(a, b) \<in> set slides. a \<le> pos \<and> pos < b)"
  shows "is_in_protected_region tables slides pos = (False, None, pos)"
proof -
  from assms(1) have t: "region_end_at tables pos = None"
    by (auto simp: region_end_at_None)
  from assms(2) have s: "region_end_at slides pos = None"
    by (auto simp: region_end_at_None)
  show ?thesis using t s by (simp add: is_in_protected_region_def)
qed

text \<open>
  Claim C4. The regions computed inside \<open>chunk_text\<close> are exactly these. A pair is a table
  range iff it runs from the start of an opening marker \<^verbatim>\<open>[TABLE n]\<close> to the end of the
  nearest following closing marker \<^verbatim>\<open>[END TABLE]\<close>; the table ranges follow the order of
  the opening markers, and an opening marker with no following closing marker contributes
  none (every function here is total: there is no error). The slide ranges pair the start
  of each slide marker with the start of the next one, the last with the length of the
  text. The point query looks at the tables first: when some table range holds the
  position it answers with the end of such a range; otherwise, when some slide range holds
  it, with the end of such a slide range; otherwise it answers no, with the position.
\<close>

theorem boundary_detection_semantics:
  "(\<forall>a b. (a, b) \<in> set (table_ranges text) \<longleftrightarrow>
       (\<exists>se. (a, se) \<in> set (finditer match_table text)) \<and>
       (\<exists>c. nearest_close a (finditer match_end_table text) c \<and> b = snd c))
   \<and> map fst (table_ranges text) =
       filter (\<lambda>a. \<exists>c \<in> set (finditer match_end_table text). a < fst c)
         (map fst (finditer match_table text))
   \<and> slide_ranges text =
       zip (map fst (finditer match_slide text))
           (tl (map fst (finditer match_slide text)) @ [int (length text)])
   \<and> (\<forall>pos.
        ((\<exists>(a, b) \<in> set (table_ranges text). a \<le> pos \<and> pos < b) \<longrightarrow>
           (\<exists>(a, b) \<in> set (table_ranges text). a \<le> pos \<and> pos < b \<and>
              is_in_protected_region (table_ranges text) (slide_ranges text) pos
                = (True, Some Table, b))) \<and>
        (\<not> (\<exists>(a, b) \<in> set (table_ranges text). a \<le> pos \<and> pos < b) \<and>
         (\<exists>(a, b) \<in> set (slide_ranges text). a \<le> pos \<and> pos < b) \<longrightarrow>
           (\<exists>(a, b) \<in> set (slide_ranges text). a \<le> pos \<and> pos < b \<and>
              is_in_protected_region (table_ranges text) (slide_ranges text) pos
                = (True, Some Slide, b))) \<and>
        (\<not> (\<exists>(a, b) \<in> set (table_ranges text). a \<le> pos \<and> pos < b) \<and>
         \<not> (\<exists>(a, b) \<in> set (slide_ranges text). a \<le> pos \<and> pos < b) \<longrightarrow>
           is_in_protected_region (table_ranges text) (slide_ranges text) pos
             = (False, None, pos)))"
proof (intro conjI)
  show "\<forall>a b. (a, b) \<in> set (table_ranges text) \<longleftrightarrow>
       (\<exists>se. (a, se) \<in> set (finditer match_table text)) \<and>
       (\<exists>c. nearest_close a (finditer match_end_table text) c \<and> b = snd c)"
  proof (intro allI)
    fix a b
    have "(a, b) \<in> set (first_end_after a (finditer match_end_table text)) \<longleftrightarrow>
            (\<exists>c. nearest_close a (finditer match_end_table text) c \<and> b = snd c)"
      using first_end_after_nearest [OF finditer_sorted, of a b a match_end_table "text"]
      by simp
    then show "(a, b) \<in> set (table_ranges text) \<longleftrightarrow>
       (\<exists>se. (a, se) \<in> set (finditer match_table text)) \<and>
       (\<exists>c. nearest_close a (finditer match_end_table text) c \<and> b = snd c)"
      unfolding table_ranges_def pair_tables_mem by simp
  qed
next
  show "map fst (table_ranges text) =
       filter (\<lambda>a. \<exists>c \<in> set (finditer match_end_table text). a < fst c)
         (map fst (finditer match_table text))"
    unfolding table_ranges_def by (rule pair_tables_starts)
next
  show "slide_ranges text =
       zip (map fst (finditer match_slide text))
           (tl (map fst (finditer match_slide text)) @ [int (length text)])"
    unfolding slide_ranges_def Let_def by (rule slide_ranges_zip)
next
  show "\<forall>pos.
        ((\<exists>(a, b) \<in> set (table_ranges text). a \<le> pos \<and> pos < b) \<longrightarrow>
           (\<exists>(a, b) \<in> set (table_ranges text). a \<le> pos \<and> pos < b \<and>
              is_in_protected_region (table_ranges text) (slide_ranges text) pos
                = (True, Some Table, b))) \<and>
        (\<not> (\<exists>(a, b) \<in> set (table_ranges text). a \<le> pos \<and> pos < b) \<and>
         (\<exists>(a, b) \<in> set (slide_ranges text). a \<le> pos \<and> pos < b) \<longrightarrow>
           (\<exists>(a, b) \<in> set (slide_ranges text). a \<le> pos \<and> pos < b \<and>
              is_in_protected_region (table_ranges text) (slide_ranges text) pos
                = (True, Some Slide, b))) \<and>
        (\<not> (\<exists>(a, b) \<in> set (table_ranges text). a \<le> pos \<and> pos < b) \<and>
         \<not> (\<exists>(a, b) \<in> set (slide_ranges text). a \<le> pos \<and> pos < b) \<longrightarrow>
           is_in_protected_region (table_ranges text) (slide_ranges text) pos
             = (False, None, pos))"
    by (intro allI conjI impI is_in_protected_region_table is_in_protected_region_slide
          is_in_protected_region_none; (elim conjE)?; assumption)
qed

theorem boundary_detection_semantics_witness:
  "finditer match_table ''[SLIDE 1]x[TABLE 1]a[END TABLE]b[TABLE 2]c[SLIDE 3]d''
     = [(10, 19), (32, 41)] \<and>
   finditer match_end_table ''[SLIDE 1]x[TABLE 1]a[END TABLE]b[TABLE 2]c[SLIDE 3]d''
     = [(20, 31)] \<and>
   finditer match_slide ''[SLIDE 1]x[TABLE 1]a[END TABLE]b[TABLE 2]c[SLIDE 3]d''
     = [(0, 9), (42, 51)] \<and>
   nearest_close 10 [(20, 31)] (20, 31) \<and>
   (10, 31) \<in> set (table_ranges ''[SLIDE 1]x[TABLE 1]a[END TABLE]b[TABLE 2]c[SLIDE 3]d'') \<and>
   (\<forall>b. (32, b) \<notin> set (table_ranges ''[SLIDE 1]x[TABLE 1]a[END TABLE]b[TABLE 2]c[SLIDE 3]d'')) \<and>
   table_ranges ''[SLIDE 1]x[TABLE 1]a[END TABLE]b[TABLE 2]c[SLIDE 3]d'' = [(10, 31)] \<and>
   slide_ranges ''[SLIDE 1]x[TABLE 1]a[END TABLE]b[TABLE 2]c[SLIDE 3]d''
     = [(0, 42), (42, 52)] \<and>
   is_in_protected_region
     (table_ranges ''[SLIDE 1]x[TABLE 1]a[END TABLE]b[TABLE 2]c[SLIDE 3]d'')
     (slide_ranges ''[SLIDE 1]x[TABLE 1]a[END TABLE]b[TABLE 2]c[SLIDE 3]d'') 15
     = (True, Some Table, 31) \<and>
   is_in_protected_region
     (table_ranges ''[SLIDE 1]x[TABLE 1]a[END TABLE]b[TABLE 2]c[SLIDE 3]d'')
     (slide_ranges ''[SLIDE 1]x[TABLE 1]a[END TABLE]b[TABLE 2]c[SLIDE 3]d'') 35
     = (True, Some Slide, 42) \<and>
   is_in_protected_region
     (table_ranges ''[SLIDE 1]x[TABLE 1]a[END TABLE]b[TABLE 2]c[SLIDE 3]d'')
     (slide_ranges ''[SLIDE 1]x[TABLE 1]a[END TABLE]b[TABLE 2]c[SLIDE 3]d'') 60
     = (False, None, 60)"
proof -
  define T where "T = ''[SLIDE 1]x[TABLE 1]a[END TABLE]b[TABLE 2]c[SLIDE 3]d''"
  have opens: "finditer match_table T = [(10, 19), (32, 41)]"
    unfolding T_def by code_simp
  have closes: "finditer match_end_table T = [(20, 31)]"
    unfolding T_def by code_simp
  have slides: "finditer match_slide T = [(0, 9), (42, 51)]"
    unfolding T_def by code_simp
  have tr: "table_ranges T = [(10, 31)]"
    unfolding T_def by code_simp
  have sr: "slide_ranges T = [(0, 42), (42, 52)]"
    unfolding T_def by code_simp
  have q15: "is_in_protected_region (table_ranges T) (slide_ranges T) 15
               = (True, Some Table, 31)"
    unfolding tr sr by code_simp
  have q35: "is_in_protected_region (table_ranges T) (slide_ranges T) 35
               = (True, Some Slide, 42)"
    unfolding tr sr by code_simp
  have q60: "is_in_protected_region (table_ranges T) (slide_ranges T) 60
               = (False, None, 60)"
    unfolding tr sr by code_simp
  have nc: "nearest_close 10 [(20, 31)] (20, 31)"
    by (simp add: nearest_close_def)
  note iff = boundary_detection_semantics [of T, THEN conjunct1, rule_format]
  have m: "(10, 31) \<in> set (table_ranges T)"
  proof -
    have "\<exists>se. (10, se) \<in> set (finditer match_table T)"
      unfolding opens by simp
    moreover have "\<exists>c. nearest_close 10 (finditer match_end_table T) c \<and> (31::int) = snd c"
      unfolding closes using nc by (intro exI [of _ "(20, 31)"]) simp
    ultimately show ?thesis unfolding iff [of 10 31] by simp
  qed
  have n: "(32, b) \<notin> set (table_ranges T)" for b
  proof
    assume "(32, b) \<in> set (table_ranges T)"
    then have "\<exists>c. nearest_close 32 (finditer match_end_table T) c \<and> b = snd c"
      unfolding iff [of 32 b] by simp
    then show False unfolding closes by (simp add: nearest_close_def)
  qed
  from opens closes slides nc m n tr sr q15 q35 q60 show ?thesis
    unfolding T_def by blast
qed
subsection \<open>Capped extension of an ordinary chunk\<close>

lemma scan_start_char:
  "(\<And>t n. m t = Some n \<Longrightarrow> t \<noteq> [] \<and> hd t = CHR ''['') \<Longrightarrow>
   (a, b) \<in> set (scan m pos skip s) \<Longrightarrow>
   pos \<le> a \<and> a - pos < int (length s) \<and> s ! nat (a - pos) = CHR ''[''"
proof (induction m pos skip s rule: scan.induct)
  case (1 m pos skip)
  then show ?case by simp
next
  case (2 m pos skip c cs)
  note mp = "2.prems"(1) and mem = "2.prems"(2)
  have up: "pos \<le> a \<and> a - pos < int (length (c # cs)) \<and> (c # cs) ! nat (a - pos) = CHR ''[''"
    if "pos + 1 \<le> a \<and> a - (pos + 1) < int (length cs) \<and> cs ! nat (a - (pos + 1)) = CHR ''[''"
  proof -
    from that have "nat (a - pos) = Suc (nat (a - (pos + 1)))" by arith
    with that show ?thesis by simp
  qed
  show ?case
  proof (cases "0 < skip")
    case True
    then have "(a, b) \<in> set (scan m (pos + 1) (skip - 1) cs)" using mem by simp
    from "2.IH"(1) [OF True mp this] show ?thesis by (rule up)
  next
    case False
    show ?thesis
    proof (cases "m (c # cs)")
      case None
      then have "(a, b) \<in> set (scan m (pos + 1) 0 cs)" using mem False by simp
      from "2.IH"(2) [OF False None mp this] show ?thesis by (rule up)
    next
      case (Some n)
      then have "(a, b) = (pos, pos + int n) \<or> (a, b) \<in> set (scan m (pos + 1) (n - 1) cs)"
        using mem False by simp
      then show ?thesis
      proof
        assume "(a, b) = (pos, pos + int n)"
        with mp [OF Some] show ?thesis by simp
      next
        assume "(a, b) \<in> set (scan m (pos + 1) (n - 1) cs)"
        from "2.IH"(3) [OF False Some mp this] show ?thesis by (rule up)
      qed
    qed
  qed
qed

lemma match_table_bracket: "match_table t = Some n \<Longrightarrow> t \<noteq> [] \<and> hd t = CHR ''[''"
  by (cases t) (auto simp: match_table_def split: option.splits if_splits)

lemma match_slide_bracket: "match_slide t = Some n \<Longrightarrow> t \<noteq> [] \<and> hd t = CHR ''[''"
  by (cases t) (auto simp: match_slide_def split: option.splits if_splits)

lemma finditer_start_char:
  assumes "(a, b) \<in> set (finditer m text)"
    and "\<And>t n. m t = Some n \<Longrightarrow> t \<noteq> [] \<and> hd t = CHR ''[''"
  shows "0 \<le> a \<and> a < int (length text) \<and> text ! nat a = CHR ''[''"
  using scan_start_char [of m a b 0 0 "text"] assms by (simp add: finditer_def)

lemma table_ranges_marker_starts: "marker_starts text (table_ranges text)"
proof -
  have "0 \<le> a \<and> a < int (length text) \<and> text ! nat a = CHR ''[''"
    if "(a, b) \<in> set (table_ranges text)" for a b
  proof -
    from that obtain se where "(a, se) \<in> set (finditer match_table text)"
      unfolding table_ranges_def pair_tables_mem by blast
    then show ?thesis by (rule finditer_start_char) (rule match_table_bracket)
  qed
  then show ?thesis by (auto simp: marker_starts_def list_all_iff)
qed

lemma slide_ranges_marker_starts: "marker_starts text (slide_ranges text)"
proof -
  have "0 \<le> a \<and> a < int (length text) \<and> text ! nat a = CHR ''[''"
    if "(a, b) \<in> set (slide_ranges text)" for a b
  proof -
    from that obtain i where i: "i < length (finditer match_slide text)"
      and a: "a = fst (finditer match_slide text ! i)"
      by (auto simp: slide_ranges_def Let_def slide_range_at_def)
    have "(a, snd (finditer match_slide text ! i)) \<in> set (finditer match_slide text)"
      unfolding a using i by simp
    then show ?thesis by (rule finditer_start_char) (rule match_slide_bracket)
  qed
  then show ?thesis by (auto simp: marker_starts_def list_all_iff)
qed

lemma protected_region_start:
  assumes "fst (is_in_protected_region tables slides pos)"
  shows "\<exists>a. (a, snd (snd (is_in_protected_region tables slides pos))) \<in> set tables \<union> set slides
             \<and> a \<le> pos"
  using assms
  by (auto simp: is_in_protected_region_def split: option.splits dest: region_end_at_Some)

lemma unprotected_outside:
  assumes "\<not> fst (is_in_protected_region tables slides pos)"
    and "(a, b) \<in> set tables \<union> set slides"
  shows "\<not> (a \<le> pos \<and> pos < b)"
proof -
  from assms(1) have "region_end_at tables pos = None" "region_end_at slides pos = None"
    by (auto simp: is_in_protected_region_def split: option.splits)
  then show ?thesis using assms(2) unfolding region_end_at_None by auto
qed

lemma extended_chunk_nonblank:
  assumes s0: "0 \<le> start" and cs: "0 < chunk_size"
    and tm: "marker_starts text tables" and sm: "marker_starts text slides"
    and out: "\<not> fst (is_in_protected_region tables slides start)"
    and prot: "fst (is_in_protected_region tables slides (start + chunk_size))"
  shows "strip (py_slice text start
            (min (snd (snd (is_in_protected_region tables slides (start + chunk_size))))
                 (start + 2 * chunk_size))) \<noteq> []"
proof -
  let ?b = "snd (snd (is_in_protected_region tables slides (start + chunk_size)))"
  let ?e = "min ?b (start + 2 * chunk_size)"
  from protected_region_start [OF prot] obtain a
    where mem: "(a, ?b) \<in> set tables \<union> set slides" and le: "a \<le> start + chunk_size" by blast
  have gt: "start + chunk_size < ?b" using prot by (rule protected_end_gt)
  have "\<not> (a \<le> start \<and> start < ?b)" using out mem by (rule unprotected_outside)
  then have lt: "start < a" using gt cs by simp
  have a: "0 \<le> a \<and> a < int (length text) \<and> text ! nat a = CHR ''[''"
    using mem tm sm by (auto simp: marker_starts_def list_all_iff)
  have ae: "a < ?e" using le gt cs by simp
  have "nat (int (nat a) - start) < length (py_slice text start ?e) \<and>
        py_slice text start ?e ! nat (int (nat a) - start) = text ! nat a"
    using s0 lt ae a by (intro py_slice_nth) auto
  then have "text ! nat a \<in> set (py_slice text start ?e)" by (metis nth_mem)
  moreover have "\<not> is_space (text ! nat a)" using a by (simp add: is_space_def)
  ultimately show ?thesis unfolding strip_nonempty_iff by blast
qed

lemma cursor_Suc:
  "cursor tables slides chunk_size overlap (Suc n) =
     next_cursor tables slides chunk_size overlap (cursor tables slides chunk_size overlap n)"
  by (simp add: cursor_def)

lemma append_chunk_mono: "c \<in> set chunks \<Longrightarrow> c \<in> set (append_chunk text s e chunks)"
  by (simp add: append_chunk_def Let_def)

lemma chunk_loop_emits:
  assumes step: "overlap < chunk_size" and cs: "0 < chunk_size"
    and tm: "marker_starts text tables" and sm: "marker_starts text slides"
  shows "\<exists>chunks. chunk_loop text tables slides chunk_size overlap 0 [] = Some chunks \<and>
     (\<forall>n. visits text tables slides chunk_size overlap n \<and>
          \<not> fst (is_in_protected_region tables slides (cursor tables slides chunk_size overlap n)) \<and>
          cursor tables slides chunk_size overlap n + chunk_size < int (length text) \<and>
          fst (is_in_protected_region tables slides
                 (cursor tables slides chunk_size overlap n + chunk_size)) \<longrightarrow>
          (py_slice text (cursor tables slides chunk_size overlap n)
             (min (snd (snd (is_in_protected_region tables slides
                               (cursor tables slides chunk_size overlap n + chunk_size))))
                  (cursor tables slides chunk_size overlap n + 2 * chunk_size)),
           cursor tables slides chunk_size overlap n,
           min (snd (snd (is_in_protected_region tables slides
                            (cursor tables slides chunk_size overlap n + chunk_size))))
               (cursor tables slides chunk_size overlap n + 2 * chunk_size)) \<in> set chunks)"
proof -
  let ?c = "cursor tables slides chunk_size overlap"
  let ?due = "\<lambda>s. \<not> fst (is_in_protected_region tables slides s) \<and>
                  s + chunk_size < int (length text) \<and>
                  fst (is_in_protected_region tables slides (s + chunk_size))"
  let ?e = "\<lambda>s. min (snd (snd (is_in_protected_region tables slides (s + chunk_size))))
                    (s + 2 * chunk_size)"
  let ?E = "\<lambda>s chunks. ?due s \<longrightarrow> (py_slice text s (?e s), s, ?e s) \<in> set chunks"
  let ?P = "\<lambda>s chunks. 0 \<le> s \<and> (\<exists>n. s = ?c n \<and> (\<forall>m < n. ?E (?c m) chunks))"
  have "\<exists>result final. chunk_loop text tables slides chunk_size overlap 0 [] = Some result
           \<and> ?P final result \<and> int (length text) \<le> final"
  proof (rule chunk_loop_rule [where P = ?P, OF step])
    have "0 = ?c 0" by (simp add: cursor_def)
    then show "?P 0 []" by force
  next
    fix s chunks
    assume P: "?P s chunks" and prot: "fst (is_in_protected_region tables slides s)"
    let ?r = "snd (snd (is_in_protected_region tables slides s))"
    from P obtain n where n: "s = ?c n" and old: "\<forall>m < n. ?E (?c m) chunks" by blast
    have nx: "?r = ?c (Suc n)" using prot by (simp add: cursor_Suc next_cursor_def n [symmetric])
    have "?E (?c m) (append_chunk text s ?r chunks)" if "m < Suc n" for m
    proof (cases "m = n")
      case True
      then show ?thesis using prot n by simp
    next
      case False
      with that have "m < n" by simp
      with old show ?thesis by (auto intro: append_chunk_mono)
    qed
    moreover have "0 \<le> ?r" using P protected_end_gt [OF prot] by simp
    ultimately show "?P ?r (append_chunk text s ?r chunks)" using nx by blast
  next
    fix s chunks
    assume P: "?P s chunks" and out: "\<not> fst (is_in_protected_region tables slides s)"
    let ?r = "s + (chunk_size - overlap)"
    let ?ne = "normal_end text tables slides chunk_size s"
    from P obtain n where n: "s = ?c n" and old: "\<forall>m < n. ?E (?c m) chunks" and s0: "0 \<le> s"
      by blast
    have nx: "?r = ?c (Suc n)" using out by (simp add: cursor_Suc next_cursor_def n [symmetric])
    have "?E (?c m) (append_chunk text s ?ne chunks)" if "m < Suc n" for m
    proof (cases "m = n")
      case True
      show ?thesis
      proof
        assume "?due (?c m)"
        then have due: "?due s" using True n by simp
        then have ne: "?ne = ?e s" by (intro normal_end_capped) simp_all
        have "strip (py_slice text s (?e s)) \<noteq> []"
          using s0 cs tm sm out due by (intro extended_chunk_nonblank) simp_all
        then have "(py_slice text s (?e s), s, ?e s) \<in> set (append_chunk text s (?e s) chunks)"
          by (simp add: append_chunk_def Let_def)
        then show "(py_slice text (?c m) (?e (?c m)), ?c m, ?e (?c m))
                     \<in> set (append_chunk text s ?ne chunks)"
          unfolding ne True n [symmetric] .
      qed
    next
      case False
      with that have "m < n" by simp
      with old show ?thesis by (auto intro: append_chunk_mono)
    qed
    moreover have "0 \<le> ?r" using s0 step by simp
    ultimately show "?P ?r (append_chunk text s ?ne chunks)" using nx by blast
  qed
  then obtain result final N where run: "chunk_loop text tables slides chunk_size overlap 0 [] = Some result"
    and fin: "int (length text) \<le> final" and N: "final = ?c N"
    and all: "\<forall>m < N. ?E (?c m) result" by blast
  have "?E (?c n) result" if v: "visits text tables slides chunk_size overlap n" for n
  proof -
    have "n < N"
    proof (rule ccontr)
      assume "\<not> n < N"
      then have "N \<in> set [0..<Suc n]" by auto
      with v have "?c N < int (length text)" unfolding visits_def list_all_iff by blast
      with fin N show False by simp
    qed
    with all show ?thesis by blast
  qed
  with run show ?thesis by blast
qed

text \<open>
  Claim C3. Whenever the proposed end of an ordinary chunk (cursor plus target size, inside
  the text) falls inside a protected region, the end of the chunk is extended to the end of
  that region, capped at cursor plus twice the target size. With \<open>overlap < chunk_size\<close>
  the loop returns; every emitted chunk at such a cursor ends at
  \<open>min region_end (cursor + 2 * chunk_size)\<close>; and, for a positive target size, at every
  such cursor that the loop handles the chunk \<open>(text[cursor:end], cursor, end)\<close> with that
  end is emitted. It is never dropped as blank, since it holds the opening bracket of the
  region's marker.
\<close>

theorem chunk_text_capped_extension:
  assumes "overlap < chunk_size"
  shows "\<exists>chunks. chunk_text text (Some chunk_size) (Some overlap) = Some chunks \<and>
     (\<forall>(chunk, start, end) \<in> set chunks.
        \<not> fst (is_in_protected_region (table_ranges text) (slide_ranges text) start) \<and>
        start + chunk_size < int (length text) \<and>
        fst (is_in_protected_region (table_ranges text) (slide_ranges text) (start + chunk_size))
        \<longrightarrow> end = min (snd (snd (is_in_protected_region (table_ranges text) (slide_ranges text)
                                  (start + chunk_size))))
                       (start + 2 * chunk_size)) \<and>
     (0 < chunk_size \<longrightarrow>
        (\<forall>n. visits text (table_ranges text) (slide_ranges text) chunk_size overlap n \<and>
          \<not> fst (is_in_protected_region (table_ranges text) (slide_ranges text)
                   (cursor (table_ranges text) (slide_ranges text) chunk_size overlap n)) \<and>
          cursor (table_ranges text) (slide_ranges text) chunk_size overlap n + chunk_size
            < int (length text) \<and>
          fst (is_in_protected_region (table_ranges text) (slide_ranges text)
                 (cursor (table_ranges text) (slide_ranges text) chunk_size overlap n + chunk_size))
          \<longrightarrow>
          (py_slice text (cursor (table_ranges text) (slide_ranges text) chunk_size overlap n)
             (min (snd (snd (is_in_protected_region (table_ranges text) (slide_ranges text)
                     (cursor (table_ranges text) (slide_ranges text) chunk_size overlap n
                        + chunk_size))))
                  (cursor (table_ranges text) (slide_ranges text) chunk_size overlap n
                     + 2 * chunk_size)),
           cursor (table_ranges text) (slide_ranges text) chunk_size overlap n,
           min (snd (snd (is_in_protected_region (table_ranges text) (slide_ranges text)
                  (cursor (table_ranges text) (slide_ranges text) chunk_size overlap n
                     + chunk_size))))
               (cursor (table_ranges text) (slide_ranges text) chunk_size overlap n
                  + 2 * chunk_size)) \<in> set chunks))"
proof -
  obtain chunks where run: "chunk_loop text (table_ranges text) (slide_ranges text)
        chunk_size overlap 0 [] = Some chunks"
    and shape: "\<forall>c \<in> set chunks.
        chunk_shape text (table_ranges text) (slide_ranges text) chunk_size c"
    using chunk_loop_shape [OF assms] by blast
  have r: "chunk_text text (Some chunk_size) (Some overlap) = Some chunks"
    using run by (simp add: chunk_text_def)
  have ends: "\<forall>(chunk, start, end) \<in> set chunks.
        \<not> fst (is_in_protected_region (table_ranges text) (slide_ranges text) start) \<and>
        start + chunk_size < int (length text) \<and>
        fst (is_in_protected_region (table_ranges text) (slide_ranges text) (start + chunk_size))
        \<longrightarrow> end = min (snd (snd (is_in_protected_region (table_ranges text) (slide_ranges text)
                                  (start + chunk_size))))
                       (start + 2 * chunk_size)"
    using shape by (auto simp: chunk_shape_def normal_end_capped)
  have emits: "\<forall>n. visits text (table_ranges text) (slide_ranges text) chunk_size overlap n \<and>
          \<not> fst (is_in_protected_region (table_ranges text) (slide_ranges text)
                   (cursor (table_ranges text) (slide_ranges text) chunk_size overlap n)) \<and>
          cursor (table_ranges text) (slide_ranges text) chunk_size overlap n + chunk_size
            < int (length text) \<and>
          fst (is_in_protected_region (table_ranges text) (slide_ranges text)
                 (cursor (table_ranges text) (slide_ranges text) chunk_size overlap n + chunk_size))
          \<longrightarrow>
          (py_slice text (cursor (table_ranges text) (slide_ranges text) chunk_size overlap n)
             (min (snd (snd (is_in_protected_region (table_ranges text) (slide_ranges text)
                     (cursor (table_ranges text) (slide_ranges text) chunk_size overlap n
                        + chunk_size))))
                  (cursor (table_ranges text) (slide_ranges text) chunk_size overlap n
                     + 2 * chunk_size)),
           cursor (table_ranges text) (slide_ranges text) chunk_size overlap n,
           min (snd (snd (is_in_protected_region (table_ranges text) (slide_ranges text)
                  (cursor (table_ranges text) (slide_ranges text) chunk_size overlap n
                     + chunk_size))))
               (cursor (table_ranges text) (slide_ranges text) chunk_size overlap n
                  + 2 * chunk_size)) \<in> set chunks"
    if cs: "0 < chunk_size"
    using chunk_loop_emits [OF assms cs table_ranges_marker_starts slide_ranges_marker_starts,
        of "text"]
    unfolding run by simp
  from r ends emits show ?thesis by (intro exI [of _ chunks] conjI impI)
qed

theorem chunk_text_capped_extension_witness:
  "(2::int) < 20 \<and> (0::int) < 20 \<and>
   chunk_text ''aaaaa[TABLE 1]x[END TABLE]zz'' (Some 20) (Some 2) =
     Some [(''aaaaa[TABLE 1]x[END TABLE]'', 0, 26), (''D TABLE]'', 18, 26), (''zz'', 26, 46)] \<and>
   cursor (table_ranges ''aaaaa[TABLE 1]x[END TABLE]zz'')
     (slide_ranges ''aaaaa[TABLE 1]x[END TABLE]zz'') 20 2 0 = 0 \<and>
   visits ''aaaaa[TABLE 1]x[END TABLE]zz'' (table_ranges ''aaaaa[TABLE 1]x[END TABLE]zz'')
     (slide_ranges ''aaaaa[TABLE 1]x[END TABLE]zz'') 20 2 0 \<and>
   is_in_protected_region (table_ranges ''aaaaa[TABLE 1]x[END TABLE]zz'')
     (slide_ranges ''aaaaa[TABLE 1]x[END TABLE]zz'') 0 = (False, None, 0) \<and>
   (0::int) + 20 < int (length ''aaaaa[TABLE 1]x[END TABLE]zz'') \<and>
   is_in_protected_region (table_ranges ''aaaaa[TABLE 1]x[END TABLE]zz'')
     (slide_ranges ''aaaaa[TABLE 1]x[END TABLE]zz'') (0 + 20) = (True, Some Table, 26) \<and>
   min (26::int) (0 + 2 * 20) = 26 \<and>
   py_slice ''aaaaa[TABLE 1]x[END TABLE]zz'' 0 26 = ''aaaaa[TABLE 1]x[END TABLE]'' \<and>
   (''aaaaa[TABLE 1]x[END TABLE]'', 0, 26) \<in>
     set [(''aaaaa[TABLE 1]x[END TABLE]'', 0::int, 26::int), (''D TABLE]'', 18, 26),
          (''zz'', 26, 46)]"
proof -
  define T where "T = ''aaaaa[TABLE 1]x[END TABLE]zz''"
  define R where "R = [(''aaaaa[TABLE 1]x[END TABLE]'', 0::int, 26::int), (''D TABLE]'', 18, 26),
          (''zz'', 26, 46)]"
  have h: "(2::int) < 20" by simp
  have h0: "(0::int) < 20" by simp
  have run: "chunk_text T (Some 20) (Some 2) = Some R"
    unfolding T_def R_def by code_simp
  have c0: "cursor (table_ranges T) (slide_ranges T) 20 2 0 = 0"
    by (simp add: cursor_def)
  have v0: "visits T (table_ranges T) (slide_ranges T) 20 2 0"
    unfolding visits_def c0 by (simp add: cursor_def T_def)
  have q0: "is_in_protected_region (table_ranges T) (slide_ranges T) 0 = (False, None, 0)"
    unfolding T_def by code_simp
  have q20: "is_in_protected_region (table_ranges T) (slide_ranges T) (0 + 20)
              = (True, Some Table, 26)"
    unfolding T_def by code_simp
  have len: "(0::int) + 20 < int (length T)"
    unfolding T_def by simp
  have mn: "min (26::int) (0 + 2 * 20) = 26" by simp
  have sl: "py_slice T 0 26 = ''aaaaa[TABLE 1]x[END TABLE]''"
    unfolding T_def by code_simp
  obtain chunks where c: "chunk_text T (Some 20) (Some 2) = Some chunks"
    and p: "(0::int) < 20 \<longrightarrow>
        (\<forall>n. visits T (table_ranges T) (slide_ranges T) 20 2 n \<and>
          \<not> fst (is_in_protected_region (table_ranges T) (slide_ranges T)
                   (cursor (table_ranges T) (slide_ranges T) 20 2 n)) \<and>
          cursor (table_ranges T) (slide_ranges T) 20 2 n + 20 < int (length T) \<and>
          fst (is_in_protected_region (table_ranges T) (slide_ranges T)
                 (cursor (table_ranges T) (slide_ranges T) 20 2 n + 20))
          \<longrightarrow>
          (py_slice T (cursor (table_ranges T) (slide_ranges T) 20 2 n)
             (min (snd (snd (is_in_protected_region (table_ranges T) (slide_ranges T)
                     (cursor (table_ranges T) (slide_ranges T) 20 2 n + 20))))
                  (cursor (table_ranges T) (slide_ranges T) 20 2 n + 2 * 20)),
           cursor (table_ranges T) (slide_ranges T) 20 2 n,
           min (snd (snd (is_in_protected_region (table_ranges T) (slide_ranges T)
                  (cursor (table_ranges T) (slide_ranges T) 20 2 n + 20))))
               (cursor (table_ranges T) (slide_ranges T) 20 2 n + 2 * 20)) \<in> set chunks)"
    using chunk_text_capped_extension [OF h, of T] by blast
  have cr: "chunks = R" using c run by simp
  from p [rule_format, OF h0, of 0] v0 len
  have "(py_slice T 0 (min 26 (0 + 2 * 20)), 0, min 26 (0 + 2 * 20)) \<in> set chunks"
    unfolding c0 q0 q20 by simp
  then have mem: "(''aaaaa[TABLE 1]x[END TABLE]'', 0, 26) \<in> set R"
    unfolding mn sl cr .
  from h h0 run c0 v0 q0 len q20 mn sl mem show ?thesis
    unfolding T_def R_def by (intro conjI)
qed


section \<open>The retriever\<close>

subsection \<open>Auxiliary facts\<close>

lemma stable_argsort_is_argsort: "is_argsort stable_argsort"
  by (auto simp: is_argsort_def stable_argsort_def)

lemma py_slice_subset: "set (py_slice xs a b) \<subseteq> set xs"
  by (auto simp: py_slice_def Let_def dest: in_set_takeD in_set_dropD)

lemma normalize_loop_Inr:
  "max_score \<noteq> min_score \<Longrightarrow>
   normalize_loop min_score max_score es acc =
     Inr (acc @ map (\<lambda>(i, s). (i, (s - min_score) / (max_score - min_score))) es)"
  by (induction es arbitrary: acc) (auto simp: py_truediv_def)

lemma dict_get_zip:
  "i < length ys \<Longrightarrow> dict_get (zip [0..<length ys] ys) i d = ys ! i"
  using map_of_zip_nth [of "[0..<length ys]" ys i] by (simp add: dict_get_def)

lemma map_const_zip:
  "length rs = n \<Longrightarrow> map (\<lambda>i. (i, c)) [0..<n] = zip [0..<n] (map (\<lambda>r. c) rs)"
  by (simp add: zip_map2 list_eq_iff_nth_eq)

lemma normalize_scores_eq:
  "normalize_scores results =
     Inr (zip [0..<length results]
            (map (\<lambda>r. if Max (set (map score results)) = Min (set (map score results)) \<or>
                         Max (set (map score results)) = 0 then 0.5
                       else (score r - Min (set (map score results))) /
                            (Max (set (map score results)) - Min (set (map score results))))
               results))"
proof (cases "results = []")
  case True
  then show ?thesis by (simp add: normalize_scores_def)
next
  case False
  show ?thesis
  proof (cases "Max (set (map score results)) = Min (set (map score results)) \<or>
                         Max (set (map score results)) = 0")
    case True
    show ?thesis
      using True False map_const_zip [of results "length results" "0.5 :: real"]
      by (simp add: normalize_scores_def Let_def del: set_map)
  next
    case neq: False
    define mx where "mx = Max (set (map score results))"
    define mn where "mn = Min (set (map score results))"
    from neq have ne: "mx \<noteq> mn" and nz: "mx \<noteq> 0"
      by (simp_all add: mx_def mn_def)
    have ns: "normalize_scores results = normalize_loop mn mx (enumerate 0 (map score results)) []"
      using False ne nz unfolding normalize_scores_def Let_def mx_def [symmetric] mn_def [symmetric]
      by simp
    have z: "map (\<lambda>(i, s). (i, (s - mn) / (mx - mn))) (enumerate 0 (map score results))
          = zip [0..<length results] (map (\<lambda>r. (score r - mn) / (mx - mn)) results)"
      by (simp add: enumerate_eq_zip zip_map2 case_prod_unfold)
    have "normalize_scores results
          = Inr (zip [0..<length results] (map (\<lambda>r. (score r - mn) / (mx - mn)) results))"
      unfolding ns normalize_loop_Inr [OF ne] z by simp
    then show ?thesis
      unfolding mx_def [symmetric] mn_def [symmetric] using ne nz by simp
  qed
qed

lemma map_fst_update:
  "map fst (map (\<lambda>(k, v). if k = key then (k, g v) else (k, v)) m) = map fst m"
  by (induction m) auto

lemma map_of_update:
  "map_of (map (\<lambda>(k, v). if k = key then (k, g v) else (k, v)) m) t
     = (if t = key then map_option g (map_of m t) else map_of m t)"
  by (induction m) auto

lemma merge_add_keys:
  "map fst (merge_add w r m)
     = (if rtext r \<in> set (map fst m) then map fst m else map fst m @ [rtext r])"
proof (cases "map_of m (rtext r) = None")
  case True
  then have "rtext r \<notin> set (map fst m)" by (simp add: map_of_eq_None_iff)
  with True show ?thesis by (simp add: merge_add_def Let_def)
next
  case False
  then have "rtext r \<in> set (map fst m)" by (simp add: map_of_eq_None_iff)
  have e: "merge_add w r m
      = map (\<lambda>(k, v). if k = rtext r
                then (k, v\<lparr>hybrid_score := hybrid_score v + normalized_score r * w\<rparr>)
                else (k, v)) m"
    using False by (simp add: merge_add_def Let_def)
  show ?thesis
    unfolding e map_fst_update using \<open>rtext r \<in> set (map fst m)\<close> by simp
qed

lemma merge_add_key_set: "fst ` set (merge_add w r m) = insert (rtext r) (fst ` set m)"
proof -
  have "set (map fst (merge_add w r m)) = insert (rtext r) (set (map fst m))"
    unfolding merge_add_keys by auto
  then show ?thesis by simp
qed

lemma merge_add_distinct:
  "distinct (map fst m) \<Longrightarrow> distinct (map fst (merge_add w r m))"
  by (simp add: merge_add_keys)

lemma merge_add_score:
  "fused_score (merge_add w r m) t
     = fused_score m t + (if t = rtext r then normalized_score r * w else 0)"
proof (cases "map_of m (rtext r)")
  case None
  then show ?thesis
    by (auto simp: merge_add_def Let_def fused_score_def map_add_def split: option.splits)
next
  case (Some v)
  then show ?thesis
    by (auto simp: merge_add_def Let_def fused_score_def map_of_update split: option.splits)
qed

lemma merge_add_keyed:
  "keyed_by_text m \<Longrightarrow> keyed_by_text (merge_add w r m)"
  by (auto simp: keyed_by_text_def merge_add_def Let_def list_all_iff split: if_splits)

lemma merge_loop_keys:
  "fst ` set (merge_loop w rs m) = fst ` set m \<union> rtext ` set rs"
  by (induction rs arbitrary: m) (simp_all add: merge_add_key_set)

lemma merge_loop_distinct:
  "distinct (map fst m) \<Longrightarrow> distinct (map fst (merge_loop w rs m))"
  by (induction rs arbitrary: m) (simp_all add: merge_add_distinct)

lemma merge_loop_keyed:
  "keyed_by_text m \<Longrightarrow> keyed_by_text (merge_loop w rs m)"
  by (induction rs arbitrary: m) (simp_all add: merge_add_keyed)

lemma merge_loop_score:
  "fused_score (merge_loop w rs m) t = fused_score m t + w * weight_sum t rs"
  by (induction rs arbitrary: m) (simp_all add: merge_add_score weight_sum_def algebra_simps)

lemma merge_results_keys:
  "fst ` set (merge_results V B) = rtext ` set V \<union> rtext ` set B"
  by (simp add: merge_results_def merge_loop_keys Un_commute)

lemma merge_results_distinct: "distinct (map fst (merge_results V B))"
  by (simp add: merge_results_def merge_loop_distinct)

lemma merge_results_keyed: "keyed_by_text (merge_results V B)"
  unfolding merge_results_def
  by (intro merge_loop_keyed) (simp add: keyed_by_text_def)

lemma merge_results_score:
  "fused_score (merge_results V B) t = 0.6 * weight_sum t V + 0.4 * weight_sum t B"
  unfolding merge_results_def merge_loop_score by (simp add: fused_score_def)

lemma distinct_filter_key:
  "distinct (map fst m) \<Longrightarrow> (k, v) \<in> set m \<Longrightarrow> filter (\<lambda>(k', v'). k' = k) m = [(k, v)]"
proof (induction m)
  case Nil
  then show ?case by simp
next
  case (Cons a m)
  show ?case
  proof (cases "fst a = k")
    case True
    then have "k \<notin> fst ` set m" using Cons.prems(1) by auto
    then have "filter (\<lambda>(k', v'). k' = k) m = []"
      by (force simp: filter_empty_conv)
    moreover have "a = (k, v)" using True Cons.prems \<open>k \<notin> fst ` set m\<close>
      by (cases a) force
    ultimately show ?thesis by simp
  next
    case False
    then have "(k, v) \<in> set m" using Cons.prems(2) by auto
    with Cons False show ?thesis by (auto simp: case_prod_unfold)
  qed
qed

lemma merge_results_entry:
  assumes "(key, v) \<in> set (merge_results V B)"
  shows "rtext v = key"
    and "hybrid_score v = 0.6 * weight_sum key V + 0.4 * weight_sum key B"
    and "filter (\<lambda>(k', v'). k' = key) (merge_results V B) = [(key, v)]"
proof -
  show "rtext v = key"
    using assms merge_results_keyed [of V B] by (auto simp: keyed_by_text_def list_all_iff)
  have "map_of (merge_results V B) key = Some v"
    using assms merge_results_distinct by (rule_tac map_of_is_SomeI)
  then have "fused_score (merge_results V B) key = hybrid_score v"
    by (simp add: fused_score_def)
  then show "hybrid_score v = 0.6 * weight_sum key V + 0.4 * weight_sum key B"
    by (simp add: merge_results_score)
  show "filter (\<lambda>(k', v'). k' = key) (merge_results V B) = [(key, v)]"
    using distinct_filter_key [OF merge_results_distinct assms] .
qed

lemma weight_sum_single: "filter (\<lambda>r. rtext r = key) rs = [r] \<Longrightarrow> weight_sum key rs = normalized_score r"
  by (simp add: weight_sum_def)

lemma weight_sum_none: "filter (\<lambda>r. rtext r = key) rs = [] \<Longrightarrow> weight_sum key rs = 0"
  by (simp add: weight_sum_def)

lemma filter_single_mem: "filter P rs = [r] \<Longrightarrow> r \<in> set rs \<and> P r"
proof -
  assume a: "filter P rs = [r]"
  have "r \<in> set (filter P rs)" by (simp add: a)
  then show ?thesis by simp
qed

lemma normalize_scores_Inr: "\<exists>normalized. normalize_scores results = Inr normalized"
  using normalize_scores_eq [of results] by blast

lemma fuse_with_eq:
  "fuse_with a b c query V B k = Inr (py_slice (final_results a b c query V B) 0 k)"
proof -
  obtain vn where vn: "normalize_scores V = Inr vn" using normalize_scores_Inr by blast
  obtain bn where bn: "normalize_scores B = Inr bn" using normalize_scores_Inr by blast
  show ?thesis
    by (simp add: fuse_with_def final_results_def scored_results_def vn bn split: prod.splits)
qed

lemma set_normalized_length: "length (set_normalized n rs) = length rs"
  by (simp add: set_normalized_def)

lemma set_normalized_nth:
  "i < length rs \<Longrightarrow>
   set_normalized n rs ! i =
     \<lparr>rtext = rtext (rs ! i), metadata = metadata (rs ! i), score = score (rs ! i),
      rtype = rtype (rs ! i), normalized_score = dict_get n i 0.0\<rparr>"
  by (simp add: set_normalized_def nth_enumerate_eq)

lemma set_normalized_rtext: "map rtext (set_normalized n rs) = map rtext rs"
  by (rule nth_equalityI) (simp_all add: set_normalized_length set_normalized_nth)

lemma scored_results_length: "length (scored_results rs) = length rs"
  using normalize_scores_Inr [of rs]
  by (auto simp: scored_results_def set_normalized_length)

lemma scored_results_rtext: "map rtext (scored_results rs) = map rtext rs"
  using normalize_scores_Inr [of rs]
  by (auto simp: scored_results_def set_normalized_rtext)

lemma boost_result_rtext: "rtext (boost_result_with c r) = rtext r"
  by (simp add: boost_result_with_def)

lemma boost_stage_cases:
  "boost_stage_with a b c query V B =
     (if is_location_query (lower (strip query)) then (a, V, B)
      else if is_materials_query (lower (strip query))
      then (b, map (boost_result_with c) V, map (boost_result_with c) B)
      else (0, V, B))"
  by (simp add: boost_stage_with_def Let_def)

lemma boost_stage_texts:
  "boost_stage_with a b c query V B = (kb, vs, bs) \<Longrightarrow>
     map rtext vs = map rtext V \<and> map rtext bs = map rtext B"
  by (auto simp: boost_stage_cases boost_result_rtext o_def split: if_splits)

lemma clamp_boost_snd:
  "map snd (clamp_boost kb m) = map (\<lambda>(key, v). v\<lparr>hybrid_score := clamp01 (hybrid_score v + kb)\<rparr>) m"
  by (simp add: clamp_boost_def clamp01_def case_prod_unfold)

lemma sort_by_hybrid_set: "set (sort_by_hybrid xs) = set xs"
  by (simp add: sort_by_hybrid_def)

lemma sort_by_hybrid_length: "length (sort_by_hybrid xs) = length xs"
  by (simp add: sort_by_hybrid_def)

lemma sort_by_hybrid_sorted:
  "sorted_wrt (\<lambda>x y. hybrid_score y \<le> hybrid_score x) (sort_by_hybrid xs)"
proof -
  have "sorted (map (\<lambda>x. - hybrid_score x) (sort_by_hybrid xs))"
    by (simp add: sort_by_hybrid_def)
  then show ?thesis by (simp add: sorted_map sorted_wrt_iff_nth_less)
qed

lemma py_slice_take: "0 \<le> k \<Longrightarrow> py_slice xs 0 k = take (nat k) xs"
  by (auto simp: py_slice_def slice_bound_def Let_def)

lemma py_slice_prefix: "py_slice xs 0 k = take (nat (slice_bound (int (length xs)) k)) xs"
  by (simp add: py_slice_def slice_bound_def Let_def)

lemma final_results_unfold:
  assumes "boost_stage_with a b c query (scored_results V) (scored_results B) = (kb, vs, bs)"
  shows "final_results a b c query V B =
           sort_by_hybrid (map (\<lambda>(key, v). v\<lparr>hybrid_score := clamp01 (hybrid_score v + kb)\<rparr>)
                             (merge_results vs bs))"
  by (simp add: final_results_def assms clamp_boost_snd)

lemma final_results_score:
  assumes st: "boost_stage_with a b c query (scored_results V) (scored_results B) = (kb, vs, bs)"
    and x: "x \<in> set (final_results a b c query V B)"
  shows "hybrid_score x = clamp01 (0.6 * weight_sum (rtext x) vs + 0.4 * weight_sum (rtext x) bs + kb)"
    and "rtext x \<in> rtext ` set V \<union> rtext ` set B"
proof -
  from x obtain key v where m: "(key, v) \<in> set (merge_results vs bs)"
    and xv: "x = v\<lparr>hybrid_score := clamp01 (hybrid_score v + kb)\<rparr>"
    unfolding final_results_unfold [OF st] sort_by_hybrid_set by auto
  have k: "rtext v = key" using m by (rule merge_results_entry(1))
  have h: "hybrid_score v = 0.6 * weight_sum key vs + 0.4 * weight_sum key bs"
    using m by (rule merge_results_entry(2))
  show "hybrid_score x = clamp01 (0.6 * weight_sum (rtext x) vs + 0.4 * weight_sum (rtext x) bs + kb)"
    unfolding xv using k h by simp
  have "key \<in> fst ` set (merge_results vs bs)" using m by force
  then have "key \<in> rtext ` set vs \<union> rtext ` set bs" unfolding merge_results_keys .
  moreover have "rtext ` set vs = rtext ` set V" "rtext ` set bs = rtext ` set B"
    using boost_stage_texts [OF st] scored_results_rtext [of V] scored_results_rtext [of B]
    by (metis set_map)+
  ultimately show "rtext x \<in> rtext ` set V \<union> rtext ` set B"
    unfolding xv using k by simp
qed

lemma distinct_map_sort_key: "distinct (map g (sort_key f xs)) = distinct (map g xs)"
  by (simp add: distinct_map)

lemma set_map_sort_key: "set (map g (sort_key f xs)) = set (map g xs)"
  by simp

lemma final_results_texts:
  "map rtext (final_results a b c query V B) \<in> {xs. distinct xs \<and> set xs = rtext ` set V \<union> rtext ` set B}"
proof -
  obtain kb vs bs where st: "boost_stage_with a b c query (scored_results V) (scored_results B) = (kb, vs, bs)"
    by (cases "boost_stage_with a b c query (scored_results V) (scored_results B)")
  let ?f = "\<lambda>(key, v). v\<lparr>hybrid_score := clamp01 (hybrid_score v + kb)\<rparr>"
  let ?m = "merge_results vs bs"
  have keyed: "\<forall>(key, v) \<in> set ?m. rtext v = key"
    using merge_results_keyed [of vs bs] by (simp add: keyed_by_text_def list_all_iff)
  have mf: "map rtext (map ?f ?m) = map fst ?m"
    using keyed by (auto simp: case_prod_unfold)
  have fr: "final_results a b c query V B = sort_key (\<lambda>x. - hybrid_score x) (map ?f ?m)"
    unfolding final_results_unfold [OF st] sort_by_hybrid_def ..
  have "distinct (map rtext (map ?f ?m))"
    unfolding mf by (rule merge_results_distinct)
  then have d: "distinct (map rtext (final_results a b c query V B))"
    unfolding fr distinct_map_sort_key .
  have "set (map rtext (final_results a b c query V B)) = set (map rtext (map ?f ?m))"
    unfolding fr set_map_sort_key ..
  also have "\<dots> = set (map fst ?m)"
    unfolding mf ..
  also have "\<dots> = rtext ` set vs \<union> rtext ` set bs"
    using merge_results_keys [of vs bs] by simp
  also have "\<dots> = rtext ` set V \<union> rtext ` set B"
    using boost_stage_texts [OF st] scored_results_rtext [of V] scored_results_rtext [of B]
    by (metis set_map)
  finally show ?thesis using d by simp
qed

lemma final_results_length:
  "length (final_results a b c query V B) = card (rtext ` set V \<union> rtext ` set B)"
proof -
  from final_results_texts [of a b c query V B]
  have d: "distinct (map rtext (final_results a b c query V B))"
    and s: "set (map rtext (final_results a b c query V B)) = rtext ` set V \<union> rtext ` set B"
    by simp_all
  from distinct_card [OF d] show ?thesis unfolding s by simp
qed

lemma clamp01_range: "0 \<le> clamp01 x \<and> clamp01 x \<le> 1"
  by (simp add: clamp01_def)

lemma clamp01_id: "0 \<le> x \<Longrightarrow> x \<le> 1 \<Longrightarrow> clamp01 x = x"
  by (simp add: clamp01_def)

lemma final_results_range:
  assumes "x \<in> set (final_results a b c query V B)"
  shows "0 \<le> hybrid_score x \<and> hybrid_score x \<le> 1"
proof -
  obtain kb vs bs where st: "boost_stage_with a b c query (scored_results V) (scored_results B) = (kb, vs, bs)"
    by (cases "boost_stage_with a b c query (scored_results V) (scored_results B)")
  show ?thesis
    unfolding final_results_score(1) [OF st assms] by (rule clamp01_range)
qed

lemma final_results_sorted:
  "sorted_wrt (\<lambda>x y. hybrid_score y \<le> hybrid_score x) (final_results a b c query V B)"
proof -
  obtain kb vs bs where st: "boost_stage_with a b c query (scored_results V) (scored_results B) = (kb, vs, bs)"
    by (cases "boost_stage_with a b c query (scored_results V) (scored_results B)")
  show ?thesis
    unfolding final_results_unfold [OF st] by (rule sort_by_hybrid_sorted)
qed

lemma hybrid_search_with_eq:
  "hybrid_search_with a b c vector_search lexical_search query (Some k) =
     Inr (py_slice (final_results a b c query (vector_search query (k * 2))
                      (lexical_search query (k * 2))) 0 k)"
  by (simp add: hybrid_search_with_def fuse_with_eq)

lemma retrieve_with_eq:
  "retrieve_with a b c vector_search lexical_search query (Some k) =
     Inr (py_slice (final_results a b c query (vector_search query (k * 2))
                      (lexical_search query (k * 2))) 0 k,
          case py_slice (final_results a b c query (vector_search query (k * 2))
                      (lexical_search query (k * 2))) 0 k of
            [] \<Rightarrow> 0
          | r # _ \<Rightarrow> max 0 (min 1 (hybrid_score r)))"
  by (simp add: retrieve_with_def hybrid_search_with_eq split: list.splits)

lemma weight_sum_map_mono:
  fixes f g :: "'m scored \<Rightarrow> 'm scored"
  assumes "\<And>r. rtext (f r) = rtext r" and "\<And>r. rtext (g r) = rtext r"
    and "\<And>r. normalized_score (f r) \<le> normalized_score (g r)"
  shows "weight_sum t (map f rs) \<le> weight_sum t (map g rs)"
proof (induction rs)
  case Nil
  then show ?case by (simp add: weight_sum_def)
next
  case (Cons r rs)
  have "weight_sum t (map h (r # rs)) =
          (if rtext r = t then normalized_score (h r) else 0) + weight_sum t (map h rs)"
    if "\<And>r. rtext (h r) = rtext r" for h :: "'m scored \<Rightarrow> 'm scored"
    using that by (simp add: weight_sum_def)
  from this [of f] this [of g] Cons assms show ?case
    by (simp add: add_mono)
qed

lemma boost_result_normalized:
  "normalized_score (boost_result_with c r) =
     (if has_materials_term (lower (rtext r)) then min 1 (normalized_score r + c)
      else normalized_score r)"
  by (simp add: boost_result_with_def)

lemma boost_result_mono:
  "0 \<le> c \<Longrightarrow>
   normalized_score (boost_result_with 0 r) \<le> normalized_score (boost_result_with c r)"
  unfolding boost_result_normalized by (auto simp: min_def)

lemma boost_stage_mono:
  assumes "0 \<le> a" "0 \<le> b" "0 \<le> c"
    and st: "boost_stage_with a b c query V B = (kb, vs, bs)"
    and st0: "boost_stage_with 0 0 0 query V B = (kb0, vs0, bs0)"
  shows "kb0 \<le> kb \<and> weight_sum t vs0 \<le> weight_sum t vs \<and> weight_sum t bs0 \<le> weight_sum t bs"
proof -
  have m: "weight_sum t (map (boost_result_with 0) rs) \<le> weight_sum t (map (boost_result_with c) rs)"
    for rs :: "'a scored list"
    using assms(3)
    by (intro weight_sum_map_mono boost_result_rtext boost_result_mono)
  show ?thesis
    using st st0 assms(1,2) m [of V] m [of B]
    by (auto simp: boost_stage_cases split: if_splits)
qed

lemma final_results_hd_max:
  assumes "x \<in> set (final_results a b c query V B)"
  shows "hybrid_score x \<le> hybrid_score (hd (final_results a b c query V B))"
proof -
  from assms obtain y ys where f: "final_results a b c query V B = y # ys"
    by (cases "final_results a b c query V B") auto
  from final_results_sorted [of a b c query V B] assms show ?thesis
    unfolding f by auto
qed

lemma final_results_top_mono:
  assumes nn: "0 \<le> a" "0 \<le> b" "0 \<le> c"
    and ne: "final_results 0 0 0 query V B \<noteq> []"
  shows "hybrid_score (hd (final_results 0 0 0 query V B))
           \<le> hybrid_score (hd (final_results a b c query V B))"
proof -
  obtain kb vs bs where st: "boost_stage_with a b c query (scored_results V) (scored_results B) = (kb, vs, bs)"
    by (cases "boost_stage_with a b c query (scored_results V) (scored_results B)")
  obtain kb0 vs0 bs0 where st0: "boost_stage_with 0 0 0 query (scored_results V) (scored_results B) = (kb0, vs0, bs0)"
    by (cases "boost_stage_with 0 0 0 query (scored_results V) (scored_results B)")
  let ?y = "hd (final_results 0 0 0 query V B)"
  have x0: "?y \<in> set (final_results 0 0 0 query V B)" using ne by simp
  have "rtext ?y \<in> set (map rtext (final_results 0 0 0 query V B))" using x0 by simp
  then have "rtext ?y \<in> set (map rtext (final_results a b c query V B))"
    using final_results_texts [of 0 0 0 query V B] final_results_texts [of a b c query V B]
    by simp
  then obtain x where x: "x \<in> set (final_results a b c query V B)" and t: "rtext x = rtext ?y"
    by auto
  from boost_stage_mono [OF nn st st0, of "rtext ?y"]
  have "0.6 * weight_sum (rtext ?y) vs0 + 0.4 * weight_sum (rtext ?y) bs0 + kb0
        \<le> 0.6 * weight_sum (rtext ?y) vs + 0.4 * weight_sum (rtext ?y) bs + kb"
    by (simp add: add_mono)
  then have "hybrid_score ?y \<le> hybrid_score x"
    unfolding final_results_score(1) [OF st0 x0] final_results_score(1) [OF st x] t
    by (simp add: clamp01_def)
  also have "\<dots> \<le> hybrid_score (hd (final_results a b c query V B))"
    using x by (rule final_results_hd_max)
  finally show ?thesis .
qed

lemma retrieve_with_confidence_mono:
  assumes nn: "0 \<le> a" "0 \<le> b" "0 \<le> c"
  shows "\<exists>results confidence results0 confidence0.
     retrieve_with a b c vector_search lexical_search query top_k = Inr (results, confidence) \<and>
     retrieve_with 0 0 0 vector_search lexical_search query top_k = Inr (results0, confidence0) \<and>
     confidence0 \<le> confidence"
proof -
  define k where "k = (case top_k of None \<Rightarrow> TOP_K | Some n \<Rightarrow> n)"
  let ?V = "vector_search query (k * 2)" and ?B = "lexical_search query (k * 2)"
  let ?F = "final_results a b c query ?V ?B" and ?G = "final_results 0 0 0 query ?V ?B"
  let ?conf = "\<lambda>rs :: 'a fused list. case rs of [] \<Rightarrow> 0 | r # _ \<Rightarrow> max 0 (min 1 (hybrid_score r))"
  have e: "retrieve_with a' b' c' vector_search lexical_search query top_k =
             retrieve_with a' b' c' vector_search lexical_search query (Some k)" for a' b' c'
    by (simp add: retrieve_with_def k_def)
  have len: "length ?F = length ?G" by (simp add: final_results_length)
  define n where "n = nat (slice_bound (int (length ?F)) k)"
  have s: "py_slice ?F 0 k = take n ?F" unfolding n_def by (rule py_slice_prefix)
  have n0: "n = nat (slice_bound (int (length ?G)) k)" using len by (simp only: n_def)
  have s0: "py_slice ?G 0 k = take n ?G" by (subst n0) (rule py_slice_prefix)
  have "?conf (take n ?G) \<le> ?conf (take n ?F)"
  proof (cases "n = 0 \<or> ?G = []")
    case True
    then have t: "take n ?G = []" "take n ?F = []" using len by auto
    show ?thesis unfolding t by simp
  next
    case False
    then have ne0: "?G \<noteq> []" and ne: "?F \<noteq> []" and n: "0 < n" using len by auto
    have h0: "take n ?G = hd ?G # take (n - 1) (tl ?G)"
      using ne0 n by (cases ?G; cases n) simp_all
    have h: "take n ?F = hd ?F # take (n - 1) (tl ?F)"
      using ne n by (cases ?F; cases n) simp_all
    from final_results_top_mono [OF nn ne0]
    show ?thesis unfolding h0 h by simp
  qed
  then have le: "?conf (take n ?G) \<le> ?conf (take n ?F)" .
  have r: "retrieve_with a b c vector_search lexical_search query top_k =
          Inr (take n ?F, ?conf (take n ?F))"
    using retrieve_with_eq [of a b c vector_search lexical_search query k]
    unfolding s e [of a b c, symmetric] .
  have r0: "retrieve_with 0 0 0 vector_search lexical_search query top_k =
          Inr (take n ?G, ?conf (take n ?G))"
    using retrieve_with_eq [of 0 0 0 vector_search lexical_search query k]
    unfolding s0 e [of 0 0 0, symmetric] .
  from r r0 le show ?thesis by blast
qed

lemma weight_sum_boosted:
  "weight_sum t (map (boost_result_with 0.25) rs) = capped_boost_sum t rs"
  by (induction rs)
     (simp_all add: weight_sum_def capped_boost_sum_def boost_result_rtext boost_result_normalized)

subsection \<open>Score normalisation\<close>

text \<open>
  Claim C6. \<open>_normalize_scores\<close> never raises: it always returns a mapping, with one entry
  per result, keyed by the position of the result. For an empty list the mapping is empty.
  When all raw scores are equal (maximum equal to minimum) or the maximum raw score is 0,
  every entry is 0.5; otherwise the entry of a result is its min-max normalised score.
  Every entry lies between 0 and 1.
\<close>

theorem normalize_scores_degenerate_safe:
  fixes results :: "('m, 'z) result_scheme list"
  shows "\<exists>normalized. normalize_scores results = Inr normalized \<and>
     map fst normalized = [0..<length results] \<and>
     (results = [] \<longrightarrow> normalized = []) \<and>
     (\<forall>i < length results.
        0 \<le> dict_get normalized i 0.0 \<and> dict_get normalized i 0.0 \<le> 1 \<and>
        dict_get normalized i 0.0 =
          (if Max (set (map score results)) = Min (set (map score results)) \<or>
              Max (set (map score results)) = 0
           then 0.5
           else (score (results ! i) - Min (set (map score results))) /
                (Max (set (map score results)) - Min (set (map score results)))))"
proof -
  define mx where "mx = Max (set (map score results))"
  define mn where "mn = Min (set (map score results))"
  define f where "f = (\<lambda>r :: ('m, 'z) result_scheme. if mx = mn \<or> mx = 0 then 0.5 else (score r - mn) / (mx - mn))"
  define normalized where "normalized = zip [0..<length results] (map f results)"
  have run: "normalize_scores results = Inr normalized"
    unfolding normalized_def f_def mx_def mn_def by (rule normalize_scores_eq)
  have keys: "map fst normalized = [0..<length results]"
    by (simp add: normalized_def)
  have emp: "results = [] \<longrightarrow> normalized = []"
    by (simp add: normalized_def)
  have get: "dict_get normalized i 0.0 = f (results ! i)" if "i < length results" for i
    using that dict_get_zip [of i "map f results" 0] by (simp add: normalized_def)
  have rng: "0 \<le> f (results ! i) \<and> f (results ! i) \<le> 1" if i: "i < length results" for i
  proof (cases "mx = mn \<or> mx = 0")
    case True
    then show ?thesis by (simp add: f_def)
  next
    case False
    have m: "score (results ! i) \<in> set (map score results)"
      using i by simp
    have lo: "mn \<le> score (results ! i)"
      unfolding mn_def by (rule Min_le [OF _ m]) simp
    have hi: "score (results ! i) \<le> mx"
      unfolding mx_def by (rule Max_ge [OF _ m]) simp
    from lo hi False have "mn < mx" by auto
    with lo hi have "0 \<le> (score (results ! i) - mn) / (mx - mn) \<and> (score (results ! i) - mn) / (mx - mn) \<le> 1"
      by (simp add: field_simps)
    with False show ?thesis by (simp add: f_def)
  qed
  have all: "\<forall>i < length results.
        0 \<le> dict_get normalized i 0.0 \<and> dict_get normalized i 0.0 \<le> 1 \<and>
        dict_get normalized i 0.0 =
          (if mx = mn \<or> mx = 0 then 0.5 else (score (results ! i) - mn) / (mx - mn))"
    using get rng by (simp add: f_def)
  from run keys emp all show ?thesis
    unfolding mx_def mn_def by blast
qed

theorem normalize_scores_degenerate_safe_witness:
  "normalize_scores [\<lparr>rtext = ''a'', metadata = (), score = 0, rtype = Vector\<rparr>,
                     \<lparr>rtext = ''b'', metadata = (), score = 0, rtype = Vector\<rparr>]
     = Inr [(0, 0.5), (1, 0.5)] \<and>
   (1::nat) < length [\<lparr>rtext = ''a'', metadata = (), score = 0, rtype = Vector\<rparr>,
                     \<lparr>rtext = ''b'', metadata = (), score = 0, rtype = Vector\<rparr>] \<and>
   dict_get [(0, 0.5), (1, 0.5 :: real)] (1::nat) 0.0 = 0.5 \<and>
   normalize_scores [\<lparr>rtext = ''a'', metadata = (), score = -3, rtype = BM25\<rparr>,
                     \<lparr>rtext = ''b'', metadata = (), score = 0, rtype = BM25\<rparr>]
     = Inr [(0, 0.5), (1, 0.5)] \<and>
   normalize_scores ([] :: unit result list) = Inr []"
proof -
  define R where "R = [\<lparr>rtext = ''a'', metadata = (), score = 0, rtype = Vector\<rparr>,
                     \<lparr>rtext = ''b'', metadata = (), score = 0, rtype = Vector\<rparr>]"
  have len: "(1::nat) < length R" by (simp add: R_def)
  have mm: "Max (set (map score R)) = 0" by (simp add: R_def)
  obtain normalized where run: "normalize_scores R = Inr normalized"
    and keys: "map fst normalized = [0..<length R]"
    and p: "\<forall>i < length R.
        0 \<le> dict_get normalized i 0.0 \<and> dict_get normalized i 0.0 \<le> 1 \<and>
        dict_get normalized i 0.0 =
          (if Max (set (map score R)) = Min (set (map score R)) \<or>
              Max (set (map score R)) = 0
           then 0.5
           else (score (R ! i) - Min (set (map score R))) /
                (Max (set (map score R)) - Min (set (map score R))))"
    using normalize_scores_degenerate_safe [of R] by blast
  have r: "normalize_scores R = Inr [(0, 0.5), (1, 0.5)]"
    by (simp add: R_def normalize_scores_def upt_rec [of 0] upt_rec [of 1])
  then have n: "normalized = [(0, 0.5), (1, 0.5)]" using run by simp
  have g: "dict_get normalized 1 0.0 = 0.5"
    using p [rule_format, OF len] mm by simp
  have g': "dict_get [(0, 0.5), (1, 0.5 :: real)] (1::nat) 0.0 = 0.5"
    using g unfolding n .
  have r2: "normalize_scores [\<lparr>rtext = ''a'', metadata = (), score = -3, rtype = BM25\<rparr>,
                     \<lparr>rtext = ''b'', metadata = (), score = 0, rtype = BM25\<rparr>]
     = Inr [(0, 0.5), (1, 0.5)]"
    by (simp add: normalize_scores_def upt_rec [of 0] upt_rec [of 1])
  have r3: "normalize_scores ([] :: unit result list) = Inr []"
    by (simp add: normalize_scores_def)
  from r len g' r2 r3 show ?thesis unfolding R_def by blast
qed

subsection \<open>Deduplication and weighted combination\<close>

text \<open>
  Claim C5. The merge of lines 175 to 198 keeps one entry per text: the keys of \<open>merged\<close>
  are distinct and are exactly the texts of the two lists, and each entry is stored under
  its own text, whatever the metadata (the identifier) of the results that carry it. The
  score of the entry before the keyword boost is 0.6 times the normalised dense scores of
  that text plus 0.4 times its normalised lexical scores, summed over the results that
  carry the text. So a text carried by one result of each list gets
  \<open>0.6 * dense + 0.4 * lexical\<close>, and a text in one list only gets that list's term only.
\<close>

theorem merge_results_dedup_weighted:
  fixes vector_results bm25_results :: "'m scored list"
  shows "(let merged = merge_results vector_results bm25_results in
    distinct (map fst merged) \<and>
    fst ` set merged = rtext ` set vector_results \<union> rtext ` set bm25_results \<and>
    (\<forall>(key, v) \<in> set merged.
       rtext v = key \<and> filter (\<lambda>(k', v'). k' = key) merged = [(key, v)] \<and>
       hybrid_score v = 0.6 * weight_sum key vector_results + 0.4 * weight_sum key bm25_results) \<and>
    (\<forall>key rv rb.
       filter (\<lambda>r. rtext r = key) vector_results = [rv] \<and>
       filter (\<lambda>r. rtext r = key) bm25_results = [rb] \<longrightarrow>
       (\<exists>v. filter (\<lambda>(k', v'). k' = key) merged = [(key, v)] \<and>
            hybrid_score v = 0.6 * normalized_score rv + 0.4 * normalized_score rb)) \<and>
    (\<forall>key rv.
       filter (\<lambda>r. rtext r = key) vector_results = [rv] \<and>
       filter (\<lambda>r. rtext r = key) bm25_results = [] \<longrightarrow>
       (\<exists>v. filter (\<lambda>(k', v'). k' = key) merged = [(key, v)] \<and>
            hybrid_score v = 0.6 * normalized_score rv)) \<and>
    (\<forall>key rb.
       filter (\<lambda>r. rtext r = key) vector_results = [] \<and>
       filter (\<lambda>r. rtext r = key) bm25_results = [rb] \<longrightarrow>
       (\<exists>v. filter (\<lambda>(k', v'). k' = key) merged = [(key, v)] \<and>
            hybrid_score v = 0.4 * normalized_score rb)))"
proof -
  define merged where "merged = merge_results vector_results bm25_results"
  have d: "distinct (map fst merged)"
    unfolding merged_def by (rule merge_results_distinct)
  have k: "fst ` set merged = rtext ` set vector_results \<union> rtext ` set bm25_results"
    unfolding merged_def by (rule merge_results_keys)
  have e: "\<forall>(key, v) \<in> set merged.
       rtext v = key \<and> filter (\<lambda>(k', v'). k' = key) merged = [(key, v)] \<and>
       hybrid_score v = 0.6 * weight_sum key vector_results + 0.4 * weight_sum key bm25_results"
  proof
    fix x assume x: "x \<in> set merged"
    obtain key v where kv: "x = (key, v)" by (cases x)
    have m: "(key, v) \<in> set (merge_results vector_results bm25_results)"
      using x unfolding kv merged_def .
    have "rtext v = key \<and> filter (\<lambda>(k', v'). k' = key) merged = [(key, v)] \<and>
       hybrid_score v = 0.6 * weight_sum key vector_results + 0.4 * weight_sum key bm25_results"
      unfolding merged_def
      using merge_results_entry(1) [OF m] merge_results_entry(2) [OF m]
        merge_results_entry(3) [OF m] by (intro conjI)
    then show "case x of (key, v) \<Rightarrow>
       rtext v = key \<and> filter (\<lambda>(k', v'). k' = key) merged = [(key, v)] \<and>
       hybrid_score v = 0.6 * weight_sum key vector_results + 0.4 * weight_sum key bm25_results"
      unfolding kv prod.case .
  qed
  have ex: "\<exists>v. filter (\<lambda>(k', v'). k' = key) merged = [(key, v)] \<and>
            hybrid_score v = 0.6 * weight_sum key vector_results + 0.4 * weight_sum key bm25_results"
    if "key \<in> rtext ` set vector_results \<union> rtext ` set bm25_results" for key
  proof -
    from that k obtain v where m: "(key, v) \<in> set merged" by force
    from bspec [OF e m, unfolded prod.case] show ?thesis by blast
  qed
  have both: "\<exists>v. filter (\<lambda>(k', v'). k' = key) merged = [(key, v)] \<and>
            hybrid_score v = 0.6 * normalized_score rv + 0.4 * normalized_score rb"
    if v: "filter (\<lambda>r. rtext r = key) vector_results = [rv]"
      and b: "filter (\<lambda>r. rtext r = key) bm25_results = [rb]" for key rv rb
  proof -
    have "key \<in> rtext ` set vector_results" using filter_single_mem [OF v] by force
    then have "key \<in> rtext ` set vector_results \<union> rtext ` set bm25_results" by simp
    from ex [OF this] show ?thesis
      unfolding weight_sum_single [OF v] weight_sum_single [OF b] .
  qed
  have dense: "\<exists>v. filter (\<lambda>(k', v'). k' = key) merged = [(key, v)] \<and>
            hybrid_score v = 0.6 * normalized_score rv"
    if v: "filter (\<lambda>r. rtext r = key) vector_results = [rv]"
      and b: "filter (\<lambda>r. rtext r = key) bm25_results = []" for key rv
  proof -
    have "key \<in> rtext ` set vector_results" using filter_single_mem [OF v] by force
    then have "key \<in> rtext ` set vector_results \<union> rtext ` set bm25_results" by simp
    from ex [OF this] show ?thesis
      unfolding weight_sum_single [OF v] weight_sum_none [OF b] by simp
  qed
  have lexical: "\<exists>v. filter (\<lambda>(k', v'). k' = key) merged = [(key, v)] \<and>
            hybrid_score v = 0.4 * normalized_score rb"
    if v: "filter (\<lambda>r. rtext r = key) vector_results = []"
      and b: "filter (\<lambda>r. rtext r = key) bm25_results = [rb]" for key rb
  proof -
    have "key \<in> rtext ` set bm25_results" using filter_single_mem [OF b] by force
    then have "key \<in> rtext ` set vector_results \<union> rtext ` set bm25_results" by simp
    from ex [OF this] show ?thesis
      unfolding weight_sum_none [OF v] weight_sum_single [OF b] by simp
  qed
  have both': "\<forall>key rv rb.
       filter (\<lambda>r. rtext r = key) vector_results = [rv] \<and>
       filter (\<lambda>r. rtext r = key) bm25_results = [rb] \<longrightarrow>
       (\<exists>v. filter (\<lambda>(k', v'). k' = key) merged = [(key, v)] \<and>
            hybrid_score v = 0.6 * normalized_score rv + 0.4 * normalized_score rb)"
    by (intro allI impI, elim conjE) (rule both)
  have dense': "\<forall>key rv.
       filter (\<lambda>r. rtext r = key) vector_results = [rv] \<and>
       filter (\<lambda>r. rtext r = key) bm25_results = [] \<longrightarrow>
       (\<exists>v. filter (\<lambda>(k', v'). k' = key) merged = [(key, v)] \<and>
            hybrid_score v = 0.6 * normalized_score rv)"
    by (intro allI impI, elim conjE) (rule dense)
  have lexical': "\<forall>key rb.
       filter (\<lambda>r. rtext r = key) vector_results = [] \<and>
       filter (\<lambda>r. rtext r = key) bm25_results = [rb] \<longrightarrow>
       (\<exists>v. filter (\<lambda>(k', v'). k' = key) merged = [(key, v)] \<and>
            hybrid_score v = 0.4 * normalized_score rb)"
    by (intro allI impI, elim conjE) (rule lexical)
  show ?thesis
    unfolding Let_def merged_def [symmetric]
    using d k e both' dense' lexical' by (intro conjI)
qed

theorem merge_results_dedup_weighted_witness:
  "filter (\<lambda>r. rtext r = ''alpha'')
     [\<lparr>rtext = ''alpha'', metadata = 1::nat, score = 0.9, rtype = Vector, normalized_score = 1\<rparr>,
      \<lparr>rtext = ''beta'', metadata = 2, score = 0.4, rtype = Vector, normalized_score = 0.5\<rparr>]
     = [\<lparr>rtext = ''alpha'', metadata = 1, score = 0.9, rtype = Vector, normalized_score = 1\<rparr>] \<and>
   filter (\<lambda>r. rtext r = ''alpha'')
     [\<lparr>rtext = ''gamma'', metadata = 9::nat, score = 7, rtype = BM25, normalized_score = 1\<rparr>,
      \<lparr>rtext = ''alpha'', metadata = 7, score = 3, rtype = BM25, normalized_score = 0.25\<rparr>]
     = [\<lparr>rtext = ''alpha'', metadata = 7, score = 3, rtype = BM25, normalized_score = 0.25\<rparr>] \<and>
   merge_results
     [\<lparr>rtext = ''alpha'', metadata = 1::nat, score = 0.9, rtype = Vector, normalized_score = 1\<rparr>,
      \<lparr>rtext = ''beta'', metadata = 2, score = 0.4, rtype = Vector, normalized_score = 0.5\<rparr>]
     [\<lparr>rtext = ''gamma'', metadata = 9, score = 7, rtype = BM25, normalized_score = 1\<rparr>,
      \<lparr>rtext = ''alpha'', metadata = 7, score = 3, rtype = BM25, normalized_score = 0.25\<rparr>]
     = [(''alpha'', \<lparr>rtext = ''alpha'', metadata = 1, score = 0.9, rtype = Vector,
                      normalized_score = 1, hybrid_score = 0.7\<rparr>),
        (''beta'', \<lparr>rtext = ''beta'', metadata = 2, score = 0.4, rtype = Vector,
                     normalized_score = 0.5, hybrid_score = 0.3\<rparr>),
        (''gamma'', \<lparr>rtext = ''gamma'', metadata = 9, score = 7, rtype = BM25,
                      normalized_score = 1, hybrid_score = 0.4\<rparr>)] \<and>
   (0.7 :: real) = 0.6 * 1 + 0.4 * 0.25"
proof -
  define V where "V = [\<lparr>rtext = ''alpha'', metadata = 1::nat, score = 0.9, rtype = Vector,
                         normalized_score = 1\<rparr>,
      \<lparr>rtext = ''beta'', metadata = 2, score = 0.4, rtype = Vector, normalized_score = 0.5\<rparr>]"
  define B where "B = [\<lparr>rtext = ''gamma'', metadata = 9::nat, score = 7, rtype = BM25,
                         normalized_score = 1\<rparr>,
      \<lparr>rtext = ''alpha'', metadata = 7, score = 3, rtype = BM25, normalized_score = 0.25\<rparr>]"
  define rv where "rv = \<lparr>rtext = ''alpha'', metadata = 1::nat, score = 0.9, rtype = Vector,
                          normalized_score = 1\<rparr>"
  define rb where "rb = \<lparr>rtext = ''alpha'', metadata = 7::nat, score = 3, rtype = BM25,
                          normalized_score = 0.25\<rparr>"
  define M where "M = [(''alpha'', \<lparr>rtext = ''alpha'', metadata = 1::nat, score = 0.9,
                      rtype = Vector, normalized_score = 1, hybrid_score = 0.7\<rparr>),
        (''beta'', \<lparr>rtext = ''beta'', metadata = 2, score = 0.4, rtype = Vector,
                     normalized_score = 0.5, hybrid_score = 0.3\<rparr>),
        (''gamma'', \<lparr>rtext = ''gamma'', metadata = 9, score = 7, rtype = BM25,
                      normalized_score = 1, hybrid_score = 0.4\<rparr>)]"
  have fv: "filter (\<lambda>r. rtext r = ''alpha'') V = [rv]"
    by (simp add: V_def rv_def)
  have fb: "filter (\<lambda>r. rtext r = ''alpha'') B = [rb]"
    by (simp add: B_def rb_def)
  have run: "merge_results V B = M"
    by (simp add: V_def B_def M_def merge_results_def merge_add_def Let_def)
  have "\<exists>v. filter (\<lambda>(k', v'). k' = ''alpha'') (merge_results V B) = [(''alpha'', v)] \<and>
            hybrid_score v = 0.6 * normalized_score rv + 0.4 * normalized_score rb"
    using merge_results_dedup_weighted [of V B, unfolded Let_def] fv fb by blast
  then obtain v where f: "filter (\<lambda>(k', v'). k' = ''alpha'') M = [(''alpha'', v)]"
    and h: "hybrid_score v = 0.6 * normalized_score rv + 0.4 * normalized_score rb"
    unfolding run by blast
  have "filter (\<lambda>(k', v'). k' = ''alpha'') M
      = [(''alpha'', \<lparr>rtext = ''alpha'', metadata = 1::nat, score = 0.9, rtype = Vector,
                      normalized_score = 1, hybrid_score = 0.7\<rparr>)]"
    by (simp add: M_def)
  with f have "v = \<lparr>rtext = ''alpha'', metadata = 1::nat, score = 0.9, rtype = Vector,
                      normalized_score = 1, hybrid_score = 0.7\<rparr>" by simp
  then have "hybrid_score v = 0.7" by simp
  with h have "(0.7 :: real) = 0.6 * 1 + 0.4 * 0.25"
    by (simp add: rv_def rb_def)
  with fv fb run show ?thesis
    unfolding V_def B_def rv_def rb_def M_def by (intro conjI)
qed

subsection \<open>Query-pattern boosting\<close>

text \<open>
  Claim C7 (as amended). For every query, with its trimmed lowercased form: if it begins
  with \<open>where\<close>, \<open>which module\<close> or \<open>find\<close>, every fused score is the 0.6/0.4 combination
  plus 0.15, clamped to \<open>[0, 1]\<close>; otherwise, if it contains one of the materials
  keywords, every fused score is the combination plus 0.20, clamped, where the normalised
  score of each raw-list result whose own text holds a materials term was first raised by
  0.25 and capped at 1.0; otherwise no boost applies. The locator test comes first, so at
  most one family applies.
\<close>

theorem hybrid_search_boost_policy:
  "(let k = (case top_k of None \<Rightarrow> TOP_K | Some n \<Rightarrow> n);
        V = scored_results (vector_search query (k * 2));
        B = scored_results (lexical_search query (k * 2));
        query_lower = lower (strip query);
        final = final_results 0.15 0.20 0.25 query (vector_search query (k * 2))
                  (lexical_search query (k * 2))
    in hybrid_search vector_search lexical_search query top_k = Inr (py_slice final 0 k) \<and>
       (is_location_query query_lower \<longrightarrow>
          (\<forall>r \<in> set final. hybrid_score r =
             clamp01 (0.6 * weight_sum (rtext r) V + 0.4 * weight_sum (rtext r) B + 0.15))) \<and>
       (\<not> is_location_query query_lower \<and> is_materials_query query_lower \<longrightarrow>
          (\<forall>r \<in> set final. hybrid_score r =
             clamp01 (0.6 * capped_boost_sum (rtext r) V + 0.4 * capped_boost_sum (rtext r) B
                      + 0.20))) \<and>
       (\<not> is_location_query query_lower \<and> \<not> is_materials_query query_lower \<longrightarrow>
          (\<forall>r \<in> set final. hybrid_score r =
             clamp01 (0.6 * weight_sum (rtext r) V + 0.4 * weight_sum (rtext r) B))))"
proof -
  define k where "k = (case top_k of None \<Rightarrow> TOP_K | Some n \<Rightarrow> n)"
  define V0 where "V0 = vector_search query (k * 2)"
  define B0 where "B0 = lexical_search query (k * 2)"
  define V where "V = scored_results V0"
  define B where "B = scored_results B0"
  define ql where "ql = lower (strip query)"
  define final where "final = final_results 0.15 0.20 0.25 query V0 B0"
  have run: "hybrid_search vector_search lexical_search query top_k = Inr (py_slice final 0 k)"
    unfolding hybrid_search_def hybrid_search_with_def fuse_with_eq final_def V0_def B0_def k_def
    by (simp add: Let_def)
  have loc: "hybrid_score r =
             clamp01 (0.6 * weight_sum (rtext r) V + 0.4 * weight_sum (rtext r) B + 0.15)"
    if q: "is_location_query ql" and r: "r \<in> set final" for r
  proof -
    have st: "boost_stage_with 0.15 0.20 0.25 query (scored_results V0) (scored_results B0)
                = (0.15, V, B)"
      using q by (simp add: boost_stage_cases ql_def V_def B_def)
    from final_results_score(1) [OF st r [unfolded final_def]] show ?thesis .
  qed
  have mat: "hybrid_score r =
             clamp01 (0.6 * capped_boost_sum (rtext r) V + 0.4 * capped_boost_sum (rtext r) B
                      + 0.20)"
    if q: "\<not> is_location_query ql" "is_materials_query ql" and r: "r \<in> set final" for r
  proof -
    have st: "boost_stage_with 0.15 0.20 0.25 query (scored_results V0) (scored_results B0)
                = (0.20, map (boost_result_with 0.25) V, map (boost_result_with 0.25) B)"
      using q by (simp add: boost_stage_cases ql_def V_def B_def)
    from final_results_score(1) [OF st r [unfolded final_def]] show ?thesis
      unfolding weight_sum_boosted .
  qed
  have none: "hybrid_score r =
             clamp01 (0.6 * weight_sum (rtext r) V + 0.4 * weight_sum (rtext r) B)"
    if q: "\<not> is_location_query ql" "\<not> is_materials_query ql" and r: "r \<in> set final" for r
  proof -
    have st: "boost_stage_with 0.15 0.20 0.25 query (scored_results V0) (scored_results B0)
                = (0, V, B)"
      using q by (simp add: boost_stage_cases ql_def V_def B_def)
    from final_results_score(1) [OF st r [unfolded final_def]] show ?thesis by simp
  qed
  show ?thesis
    unfolding Let_def k_def [symmetric] V0_def [symmetric] B0_def [symmetric] V_def [symmetric]
      B_def [symmetric] ql_def [symmetric] final_def [symmetric]
    using run loc mat none by (intro conjI impI ballI; (elim conjE)?; assumption?)
qed

theorem hybrid_search_boost_policy_witness:
  "\<not> is_location_query (lower (strip ''required book'')) \<and>
   is_materials_query (lower (strip ''required book'')) \<and>
   final_results 0.15 0.20 0.25 ''required book''
     (fixed_search [\<lparr>rtext = ''table A'', metadata = 1::nat, score = 0.9, rtype = Vector\<rparr>,
      \<lparr>rtext = ''notes'', metadata = 2, score = 0.1, rtype = Vector\<rparr>] ''required book'' (2 * 2))
     (fixed_search ([] :: nat result list) ''required book'' (2 * 2)) =
     [\<lparr>rtext = ''table A'', metadata = 1::nat, score = 0.9, rtype = Vector,
        normalized_score = 1, hybrid_score = 0.8\<rparr>,
      \<lparr>rtext = ''notes'', metadata = 2, score = 0.1, rtype = Vector,
        normalized_score = 0, hybrid_score = 0.2\<rparr>] \<and>
   capped_boost_sum ''table A''
     (scored_results (fixed_search [\<lparr>rtext = ''table A'', metadata = 1::nat, score = 0.9, rtype = Vector\<rparr>,
      \<lparr>rtext = ''notes'', metadata = 2, score = 0.1, rtype = Vector\<rparr>] ''required book'' (2 * 2))) = 1 \<and>
   capped_boost_sum ''table A''
     (scored_results (fixed_search ([] :: nat result list) ''required book'' (2 * 2))) = 0 \<and>
   (0.8 :: real) = clamp01 (0.6 * 1 + 0.4 * 0 + 0.20)"
proof -
  define Q where "Q = ''required book''"
  define Vq where "Vq = fixed_search [\<lparr>rtext = ''table A'', metadata = 1::nat, score = 0.9, rtype = Vector\<rparr>,
      \<lparr>rtext = ''notes'', metadata = 2, score = 0.1, rtype = Vector\<rparr>] Q (2 * 2)"
  define Bq where "Bq = fixed_search ([] :: nat result list) Q (2 * 2)"
  define F where "F = final_results 0.15 0.20 0.25 Q Vq Bq"
  define r where "r = \<lparr>rtext = ''table A'', metadata = 1::nat, score = 0.9, rtype = Vector,
        normalized_score = 1, hybrid_score = 0.8\<rparr>"
  have nl: "\<not> is_location_query (lower (strip Q))"
    unfolding Q_def by code_simp
  have mq: "is_materials_query (lower (strip Q))"
    unfolding Q_def by code_simp
  have fin: "F = [\<lparr>rtext = ''table A'', metadata = 1::nat, score = 0.9, rtype = Vector,
        normalized_score = 1, hybrid_score = 0.8\<rparr>,
      \<lparr>rtext = ''notes'', metadata = 2, score = 0.1, rtype = Vector,
        normalized_score = 0, hybrid_score = 0.2\<rparr>]"
    unfolding F_def Vq_def Bq_def Q_def by code_simp
  have cv: "capped_boost_sum ''table A'' (scored_results Vq) = 1"
    unfolding Vq_def Q_def by code_simp
  have cb: "capped_boost_sum ''table A'' (scored_results Bq) = 0"
    unfolding Bq_def Q_def by code_simp
  have mem: "r \<in> set F" unfolding fin r_def by simp
  have tx: "rtext r = ''table A''" and hy: "hybrid_score r = 0.8"
    by (simp_all add: r_def)
  note t = hybrid_search_boost_policy [where top_k = "Some 2" and query = Q
      and vector_search = "fixed_search [\<lparr>rtext = ''table A'', metadata = 1::nat, score = 0.9, rtype = Vector\<rparr>,
      \<lparr>rtext = ''notes'', metadata = 2, score = 0.1, rtype = Vector\<rparr>]"
      and lexical_search = "fixed_search ([] :: nat result list)",
      unfolded Let_def option.case, folded Vq_def Bq_def, folded F_def]
  from t nl mq have "\<forall>r \<in> set F. hybrid_score r =
             clamp01 (0.6 * capped_boost_sum (rtext r) (scored_results Vq)
                      + 0.4 * capped_boost_sum (rtext r) (scored_results Bq) + 0.20)"
    by blast
  from bspec [OF this mem] have "(0.8 :: real) = clamp01 (0.6 * 1 + 0.4 * 0 + 0.20)"
    unfolding tx hy cv cb .
  with nl mq fin cv cb show ?thesis
    unfolding F_def Vq_def Bq_def Q_def by (intro conjI)
qed

text \<open>
  The claim as stated fails: the raise of 0.25 is capped at 1.0 (line 168,
  \<open>min(1.0, ... + 0.25)\<close>). For the materials query below the best dense result has
  normalised score 1 and a text holding \<open>table\<close>; its fused score is
  \<open>0.6 * 1 + 0.20 = 0.8\<close>, not \<open>0.6 * (1 + 0.25) + 0.20 = 0.95\<close>.
\<close>

theorem boost_not_additive_counterexample:
  "hybrid_search
     (fixed_search [\<lparr>rtext = ''table A'', metadata = 1::nat, score = 0.9, rtype = Vector\<rparr>,
      \<lparr>rtext = ''notes'', metadata = 2, score = 0.1, rtype = Vector\<rparr>])
     (fixed_search ([] :: nat result list)) ''required book'' (Some 2) =
   Inr [\<lparr>rtext = ''table A'', metadata = 1::nat, score = 0.9, rtype = Vector,
        normalized_score = 1, hybrid_score = 0.8\<rparr>,
      \<lparr>rtext = ''notes'', metadata = 2, score = 0.1, rtype = Vector,
        normalized_score = 0, hybrid_score = 0.2\<rparr>] \<and>
   \<not> is_location_query (lower (strip ''required book'')) \<and>
   is_materials_query (lower (strip ''required book'')) \<and>
   has_materials_term (lower ''table A'') \<and>
   scored_results
     (fixed_search [\<lparr>rtext = ''table A'', metadata = 1::nat, score = 0.9, rtype = Vector\<rparr>,
      \<lparr>rtext = ''notes'', metadata = 2, score = 0.1, rtype = Vector\<rparr>] ''required book'' (2 * 2)) =
     [\<lparr>rtext = ''table A'', metadata = 1::nat, score = 0.9, rtype = Vector,
        normalized_score = 1\<rparr>,
      \<lparr>rtext = ''notes'', metadata = 2, score = 0.1, rtype = Vector,
        normalized_score = 0\<rparr>] \<and>
   (0.8 :: real) \<noteq> clamp01 (0.6 * (1 + 0.25) + 0.20)"
proof -
  have "hybrid_search
     (fixed_search [\<lparr>rtext = ''table A'', metadata = 1::nat, score = 0.9, rtype = Vector\<rparr>,
      \<lparr>rtext = ''notes'', metadata = 2, score = 0.1, rtype = Vector\<rparr>])
     (fixed_search ([] :: nat result list)) ''required book'' (Some 2) =
   Inr [\<lparr>rtext = ''table A'', metadata = 1::nat, score = 0.9, rtype = Vector,
        normalized_score = 1, hybrid_score = 0.8\<rparr>,
      \<lparr>rtext = ''notes'', metadata = 2, score = 0.1, rtype = Vector,
        normalized_score = 0, hybrid_score = 0.2\<rparr>]"
    by code_simp
  moreover have "\<not> is_location_query (lower (strip ''required book''))"
    by code_simp
  moreover have "is_materials_query (lower (strip ''required book''))"
    by code_simp
  moreover have "has_materials_term (lower ''table A'')"
    by code_simp
  moreover have "scored_results
     (fixed_search [\<lparr>rtext = ''table A'', metadata = 1::nat, score = 0.9, rtype = Vector\<rparr>,
      \<lparr>rtext = ''notes'', metadata = 2, score = 0.1, rtype = Vector\<rparr>] ''required book'' (2 * 2)) =
     [\<lparr>rtext = ''table A'', metadata = 1::nat, score = 0.9, rtype = Vector,
        normalized_score = 1\<rparr>,
      \<lparr>rtext = ''notes'', metadata = 2, score = 0.1, rtype = Vector,
        normalized_score = 0\<rparr>]"
    by code_simp
  moreover have "(0.8 :: real) \<noteq> clamp01 (0.6 * (1 + 0.25) + 0.20)"
    by (simp add: clamp01_def)
  ultimately show ?thesis by (intro conjI)
qed

subsection \<open>The contract of \<open>retrieve\<close>\<close>

text \<open>
  Claim C8. For every query and every \<open>k \<ge> 0\<close>, \<open>retrieve(query, k)\<close> returns: it asks each
  of the two searches for \<open>2k\<close> candidates and uses nothing else of them (two pairs of
  searches that answer these two requests alike give the same outcome); it returns at most
  \<open>k\<close> results, namely as many as there are distinct texts among the candidates, up to
  \<open>k\<close>, each carrying a candidate's text; the results are ordered by non-increasing
  hybrid score and every score lies in \<open>[0, 1]\<close>; the confidence is the hybrid score of the
  first result, clamped to \<open>[0, 1]\<close> (which leaves it unchanged), or 0 when there is no
  result. Without \<open>k\<close> the default \<open>TOP_K\<close> is used.
\<close>

theorem retrieve_contract:
  assumes "0 \<le> k"
  shows "\<exists>results confidence.
     retrieve vector_search lexical_search query (Some k) = Inr (results, confidence) \<and>
     int (length results) \<le> k \<and>
     length results = min (nat k) (card (rtext ` set (vector_search query (2 * k)) \<union>
                                         rtext ` set (lexical_search query (2 * k)))) \<and>
     rtext ` set results \<subseteq> rtext ` set (vector_search query (2 * k)) \<union>
                              rtext ` set (lexical_search query (2 * k)) \<and>
     sorted_wrt (\<lambda>x y. hybrid_score y \<le> hybrid_score x) results \<and>
     (\<forall>r \<in> set results. 0 \<le> hybrid_score r \<and> hybrid_score r \<le> 1) \<and>
     confidence = (case results of [] \<Rightarrow> 0 | r # _ \<Rightarrow> max 0 (min 1 (hybrid_score r))) \<and>
     confidence = (case results of [] \<Rightarrow> 0 | r # _ \<Rightarrow> hybrid_score r) \<and>
     (\<forall>vector_search' lexical_search'.
        vector_search' query (2 * k) = vector_search query (2 * k) \<and>
        lexical_search' query (2 * k) = lexical_search query (2 * k) \<longrightarrow>
        retrieve vector_search' lexical_search' query (Some k) =
          retrieve vector_search lexical_search query (Some k)) \<and>
     retrieve vector_search lexical_search query None =
       retrieve vector_search lexical_search query (Some TOP_K)"
proof -
  let ?V = "vector_search query (2 * k)" and ?B = "lexical_search query (2 * k)"
  define final where "final = final_results 0.15 0.20 0.25 query ?V ?B"
  define results where "results = py_slice final 0 k"
  define confidence where
    "confidence = (case results of [] \<Rightarrow> 0 | r # _ \<Rightarrow> max 0 (min 1 (hybrid_score r)))"
  have tk: "results = take (nat k) final"
    unfolding results_def using assms by (rule py_slice_take)
  have run: "retrieve vector_search lexical_search query (Some k) = Inr (results, confidence)"
    unfolding retrieve_def retrieve_with_eq confidence_def results_def final_def
    by (simp add: mult.commute)
  have len: "int (length results) \<le> k"
    unfolding tk using assms by simp
  have card: "length results = min (nat k) (card (rtext ` set ?V \<union> rtext ` set ?B))"
    unfolding tk final_def by (simp add: final_results_length min.commute)
  have sub: "set results \<subseteq> set final"
    unfolding tk by (rule set_take_subset)
  have texts: "rtext ` set results \<subseteq> rtext ` set ?V \<union> rtext ` set ?B"
  proof
    fix t assume "t \<in> rtext ` set results"
    then obtain x where x: "x \<in> set results" and t: "t = rtext x" by blast
    from x sub have "x \<in> set (final_results 0.15 0.20 0.25 query ?V ?B)"
      unfolding final_def by blast
    from final_results_texts [of "0.15" "0.20" "0.25" query ?V ?B] this
    show "t \<in> rtext ` set ?V \<union> rtext ` set ?B"
      unfolding t by force
  qed
  have srt: "sorted_wrt (\<lambda>x y. hybrid_score y \<le> hybrid_score x) results"
    unfolding tk final_def by (intro sorted_wrt_take final_results_sorted)
  have rng: "\<forall>r \<in> set results. 0 \<le> hybrid_score r \<and> hybrid_score r \<le> 1"
  proof
    fix r assume "r \<in> set results"
    with sub have "r \<in> set (final_results 0.15 0.20 0.25 query ?V ?B)"
      unfolding final_def by blast
    then show "0 \<le> hybrid_score r \<and> hybrid_score r \<le> 1" by (rule final_results_range)
  qed
  have conf: "confidence = (case results of [] \<Rightarrow> 0 | r # _ \<Rightarrow> hybrid_score r)"
  proof (cases results)
    case Nil
    then show ?thesis by (simp add: confidence_def)
  next
    case (Cons r rs)
    then have "r \<in> set results" by simp
    with rng have "0 \<le> hybrid_score r \<and> hybrid_score r \<le> 1" by blast
    then show ?thesis by (simp add: confidence_def Cons)
  qed
  have dep: "\<forall>vector_search' lexical_search'.
        vector_search' query (2 * k) = vector_search query (2 * k) \<and>
        lexical_search' query (2 * k) = lexical_search query (2 * k) \<longrightarrow>
        retrieve vector_search' lexical_search' query (Some k) =
          retrieve vector_search lexical_search query (Some k)"
    unfolding retrieve_def retrieve_with_eq by (simp add: mult.commute)
  have dflt: "retrieve vector_search lexical_search query None =
       retrieve vector_search lexical_search query (Some TOP_K)"
    by (simp add: retrieve_def retrieve_with_def)
  from run len card texts srt rng confidence_def conf dep dflt show ?thesis
    by (intro exI [of _ results] exI [of _ confidence] conjI)
qed

theorem retrieve_contract_witness:
  "(0::int) \<le> 2 \<and>
   retrieve
     (fixed_search [\<lparr>rtext = ''table A'', metadata = 1::nat, score = 0.9, rtype = Vector\<rparr>,
      \<lparr>rtext = ''notes'', metadata = 2, score = 0.1, rtype = Vector\<rparr>])
     (fixed_search ([] :: nat result list)) ''required book'' (Some 2) =
   Inr ([\<lparr>rtext = ''table A'', metadata = 1::nat, score = 0.9, rtype = Vector,
        normalized_score = 1, hybrid_score = 0.8\<rparr>,
      \<lparr>rtext = ''notes'', metadata = 2, score = 0.1, rtype = Vector,
        normalized_score = 0, hybrid_score = 0.2\<rparr>], 0.8) \<and>
   int (length [\<lparr>rtext = ''table A'', metadata = 1::nat, score = 0.9, rtype = Vector,
        normalized_score = 1, hybrid_score = 0.8\<rparr>,
      \<lparr>rtext = ''notes'', metadata = 2, score = 0.1, rtype = Vector,
        normalized_score = 0, hybrid_score = 0.2\<rparr>]) \<le> 2 \<and>
   (0.8 :: real) = (case [\<lparr>rtext = ''table A'', metadata = 1::nat, score = 0.9, rtype = Vector,
        normalized_score = 1, hybrid_score = 0.8\<rparr>,
      \<lparr>rtext = ''notes'', metadata = 2, score = 0.1, rtype = Vector,
        normalized_score = 0, hybrid_score = 0.2\<rparr>] of [] \<Rightarrow> 0 | r # _ \<Rightarrow> hybrid_score r)"
proof -
  define vs where "vs = fixed_search [\<lparr>rtext = ''table A'', metadata = 1::nat, score = 0.9, rtype = Vector\<rparr>,
      \<lparr>rtext = ''notes'', metadata = 2, score = 0.1, rtype = Vector\<rparr>]"
  define ls where "ls = fixed_search ([] :: nat result list)"
  define out where "out = [\<lparr>rtext = ''table A'', metadata = 1::nat, score = 0.9, rtype = Vector,
        normalized_score = 1, hybrid_score = 0.8\<rparr>,
      \<lparr>rtext = ''notes'', metadata = 2, score = 0.1, rtype = Vector,
        normalized_score = 0, hybrid_score = 0.2\<rparr>]"
  have h: "(0::int) \<le> 2" by simp
  have run: "retrieve vs ls ''required book'' (Some 2) = Inr (out, 0.8)"
    unfolding vs_def ls_def out_def by code_simp
  from retrieve_contract [OF h, of vs ls "''required book''"]
  obtain results confidence where
    r: "retrieve vs ls ''required book'' (Some 2) = Inr (results, confidence)"
    and len: "int (length results) \<le> 2"
    and conf: "confidence = (case results of [] \<Rightarrow> 0 | r # _ \<Rightarrow> hybrid_score r)"
    by blast
  from r run have e: "results = out" "confidence = 0.8" by simp_all
  from len conf have "int (length out) \<le> 2"
    and "(0.8 :: real) = (case out of [] \<Rightarrow> 0 | r # _ \<Rightarrow> hybrid_score r)"
    unfolding e by simp_all
  with h run show ?thesis
    unfolding vs_def ls_def out_def by (intro conjI)
qed

subsection \<open>Confidence under boosting\<close>

text \<open>
  Claim C9. For a fixed query and fixed answers of the two searches, \<open>retrieve\<close> returns,
  the same computation with the three boost amounts set to zero returns, and the
  confidence of the former is at least the confidence of the latter.
\<close>

theorem confidence_monotone_under_boost:
  "\<exists>results confidence results0 confidence0.
     retrieve vector_search lexical_search query top_k = Inr (results, confidence) \<and>
     retrieve_with 0 0 0 vector_search lexical_search query top_k = Inr (results0, confidence0) \<and>
     confidence0 \<le> confidence"
  unfolding retrieve_def by (rule retrieve_with_confidence_mono) simp_all

theorem confidence_monotone_under_boost_witness:
  "retrieve
     (fixed_search [\<lparr>rtext = ''table A'', metadata = 1::nat, score = 0.9, rtype = Vector\<rparr>,
      \<lparr>rtext = ''notes'', metadata = 2, score = 0.1, rtype = Vector\<rparr>])
     (fixed_search ([] :: nat result list)) ''required book'' (Some 2) =
   Inr ([\<lparr>rtext = ''table A'', metadata = 1::nat, score = 0.9, rtype = Vector,
        normalized_score = 1, hybrid_score = 0.8\<rparr>,
      \<lparr>rtext = ''notes'', metadata = 2, score = 0.1, rtype = Vector,
        normalized_score = 0, hybrid_score = 0.2\<rparr>], 0.8) \<and>
   retrieve_with 0 0 0
     (fixed_search [\<lparr>rtext = ''table A'', metadata = 1::nat, score = 0.9, rtype = Vector\<rparr>,
      \<lparr>rtext = ''notes'', metadata = 2, score = 0.1, rtype = Vector\<rparr>])
     (fixed_search ([] :: nat result list)) ''required book'' (Some 2) =
   Inr ([\<lparr>rtext = ''table A'', metadata = 1::nat, score = 0.9, rtype = Vector,
        normalized_score = 1, hybrid_score = 0.6\<rparr>,
      \<lparr>rtext = ''notes'', metadata = 2, score = 0.1, rtype = Vector,
        normalized_score = 0, hybrid_score = 0\<rparr>], 0.6) \<and>
   (0.6 :: real) \<le> 0.8"
proof -
  define vs where "vs = fixed_search [\<lparr>rtext = ''table A'', metadata = 1::nat, score = 0.9, rtype = Vector\<rparr>,
      \<lparr>rtext = ''notes'', metadata = 2, score = 0.1, rtype = Vector\<rparr>]"
  define ls where "ls = fixed_search ([] :: nat result list)"
  define out where "out = [\<lparr>rtext = ''table A'', metadata = 1::nat, score = 0.9, rtype = Vector,
        normalized_score = 1, hybrid_score = 0.8\<rparr>,
      \<lparr>rtext = ''notes'', metadata = 2, score = 0.1, rtype = Vector,
        normalized_score = 0, hybrid_score = 0.2\<rparr>]"
  define out0 where "out0 = [\<lparr>rtext = ''table A'', metadata = 1::nat, score = 0.9, rtype = Vector,
        normalized_score = 1, hybrid_score = 0.6\<rparr>,
      \<lparr>rtext = ''notes'', metadata = 2, score = 0.1, rtype = Vector,
        normalized_score = 0, hybrid_score = 0\<rparr>]"
  have run: "retrieve vs ls ''required book'' (Some 2) = Inr (out, 0.8)"
    unfolding vs_def ls_def out_def by code_simp
  have run0: "retrieve_with 0 0 0 vs ls ''required book'' (Some 2) = Inr (out0, 0.6)"
    unfolding vs_def ls_def out0_def by code_simp
  from confidence_monotone_under_boost [of vs ls "''required book''" "Some 2"]
  obtain results confidence results0 confidence0 where
    "retrieve vs ls ''required book'' (Some 2) = Inr (results, confidence)"
    "retrieve_with 0 0 0 vs ls ''required book'' (Some 2) = Inr (results0, confidence0)"
    "confidence0 \<le> confidence" by blast
  with run run0 have "(0.6 :: real) \<le> 0.8" by simp
  with run run0 show ?thesis
    unfolding vs_def ls_def out_def out0_def by (intro conjI)
qed

subsection \<open>Lexical search keeps positive scores only\<close>

text \<open>
  Claim C10. Every result returned by \<open>bm25_search\<close> has a raw score strictly greater
  than 0. When no document has a positive score for the query (the case of a query whose
  tokens occur in no indexed document) the result is the empty list. Hence fewer than
  \<open>top_k\<close> results may come back although the index holds at least \<open>top_k\<close> documents:
  with three documents of which one has a positive score and \<open>top_k = 2\<close>, one result.
\<close>

theorem bm25_search_positive_only:
  "(\<forall>r \<in> set (bm25_search get_scores argsort documents metadatas query top_k). 0 < score r) \<and>
   (is_argsort argsort \<and> list_all (\<lambda>s. s \<le> 0) (get_scores (split (lower query))) \<longrightarrow>
      bm25_search get_scores argsort documents metadatas query top_k = []) \<and>
   (\<exists>get_scores' documents' metadatas'.
      2 \<le> length documents' \<and>
      length (bm25_search get_scores' stable_argsort documents' (metadatas' :: unit list) ''exam date'' (Some 2)) < 2)"
proof (intro conjI impI)
  show "\<forall>r \<in> set (bm25_search get_scores argsort documents metadatas query top_k). 0 < score r"
    by (auto simp: bm25_search_def Let_def)
next
  assume a: "is_argsort argsort \<and> list_all (\<lambda>s. s \<le> 0) (get_scores (split (lower query)))"
  define scores where "scores = get_scores (split (lower query))"
  have v: "set (argsort scores) = {..<length scores}"
    using a by (simp add: is_argsort_def)
  have np: "\<forall>s \<in> set scores. s \<le> 0"
    using a by (simp add: scores_def list_all_iff)
  have "\<not> 0 < scores ! idx" if "idx \<in> set (py_slice (rev (argsort scores)) 0 k)" for idx k
  proof -
    have "idx \<in> set (rev (argsort scores))"
      using that py_slice_subset [of "rev (argsort scores)" 0 k] by auto
    then have "idx < length scores" using v by auto
    then have "scores ! idx \<in> set scores" by simp
    then show ?thesis using np by fastforce
  qed
  then have "filter (\<lambda>idx. 0 < scores ! idx) (py_slice (rev (argsort scores)) 0 k) = []" for k
    by (simp add: filter_empty_conv)
  then show "bm25_search get_scores argsort documents metadatas query top_k = []"
    by (simp add: bm25_search_def Let_def scores_def [symmetric])
next
  have "2 \<le> length [''exam on friday'', ''lab rules'', ''grading''] \<and>
      length (bm25_search (\<lambda>_. [1.5, 0, 0]) stable_argsort [''exam on friday'', ''lab rules'', ''grading''] [(), (), ()] ''exam date'' (Some 2)) < 2"
    by (simp add: bm25_search_def Let_def stable_argsort_def py_slice_def slice_bound_def upt_rec [of 0] upt_rec [of 1] upt_rec [of 2])
  then show "\<exists>get_scores' documents' metadatas'.
      2 \<le> length documents' \<and>
      length (bm25_search get_scores' stable_argsort documents' (metadatas' :: unit list) ''exam date'' (Some 2)) < 2"
    by blast
qed

theorem bm25_search_positive_only_witness:
  "is_argsort stable_argsort \<and>
   list_all (\<lambda>s. s \<le> 0) ((\<lambda>_. [0, 0, 0 :: real]) (split (lower ''Quantum Physics''))) \<and>
   bm25_search (\<lambda>_. [0, 0, 0]) stable_argsort [''exam on friday'', ''lab rules'', ''grading'']
      [(), (), ()] ''Quantum Physics'' (Some 2) = [] \<and>
   bm25_search (\<lambda>_. [0, 2, 0.5]) stable_argsort [''exam on friday'', ''lab rules'', ''grading'']
      [(), (), ()] ''lab grading'' (Some 2) =
     [\<lparr>rtext = ''lab rules'', metadata = (), score = 2, rtype = BM25\<rparr>,
      \<lparr>rtext = ''grading'', metadata = (), score = 0.5, rtype = BM25\<rparr>] \<and>
   (0::real) < 2 \<and> (0::real) < 0.5"
proof -
  have a: "is_argsort stable_argsort" by (rule stable_argsort_is_argsort)
  have b: "list_all (\<lambda>s. s \<le> 0) ((\<lambda>_. [0, 0, 0 :: real]) (split (lower ''Quantum Physics'')))"
    by simp
  note t1 = bm25_search_positive_only [of "\<lambda>_. [0, 0, 0]" stable_argsort
      "[''exam on friday'', ''lab rules'', ''grading'']" "[(), (), ()]" "''Quantum Physics''" "Some 2"]
  have c: "bm25_search (\<lambda>_. [0, 0, 0]) stable_argsort [''exam on friday'', ''lab rules'', ''grading'']
      [(), (), ()] ''Quantum Physics'' (Some 2) = []"
    using t1 a b by blast
  have d: "bm25_search (\<lambda>_. [0, 2, 0.5]) stable_argsort [''exam on friday'', ''lab rules'', ''grading'']
      [(), (), ()] ''lab grading'' (Some 2) =
     [\<lparr>rtext = ''lab rules'', metadata = (), score = 2, rtype = BM25\<rparr>,
      \<lparr>rtext = ''grading'', metadata = (), score = 0.5, rtype = BM25\<rparr>]"
    by (simp add: bm25_search_def Let_def stable_argsort_def py_slice_def slice_bound_def upt_rec [of 0] upt_rec [of 1] upt_rec [of 2])
  from a b c d show ?thesis by simp
qed


end
